theory Spec2Isabelle
  imports Main "HOL-Library.Word"
begin

section \<open>The record-mode runtime of xtern (lib/runtime/record-runtime.cpp)\<close>

text \<open>
  The wrappers of \<^verbatim>\<open>RecorderRT<_S>\<close> are embedded as functions over an explicit
  state. One call of a wrapper by one thread is one function application: the state holds
  what the thread reads and writes (errno, the caller's error cell, the thread-local flags,
  the turn counter, the barrier table), the answers of the world outside the wrapper (what
  each native call returns, what each scheduler wait returns, the wall clock), and what an
  observer sees of the call (the events in program order, the records appended to the log).

  The scheduler \<^verbatim>\<open>_S\<close> (record-scheduler.h) is not part of the sources at hand: its
  operations are events of the trace. Timing fields of the log (\<^verbatim>\<open>update_time\<close>),
  the statistics counters and \<^verbatim>\<open>dprintf\<close> (an empty macro) carry no behaviour of
  the wrappers and are left out.
\<close>

subsection \<open>Constants of the platform\<close>

type_synonym addr = nat

definition EAGAIN :: int where "EAGAIN = 11"
definition EBUSY :: int where "EBUSY = 16"
definition EINVAL :: int where "EINVAL = 22"
definition ETIMEDOUT :: int where "ETIMEDOUT = 110"
definition PTHREAD_BARRIER_SERIAL_THREAD :: int where "PTHREAD_BARRIER_SERIAL_THREAD = - 1"

text \<open>Modelled from the spec: the default deadline of \<^verbatim>\<open>wait\<close>, declared in the
  scheduler's header, which is missing (``a wake deadline in turns, UINT_MAX = indefinite'').\<close>

definition FOREVER :: "32 word" where "FOREVER = - 1"

subsection \<open>Data\<close>

record timespec =
  tv_sec :: int
  tv_nsec :: int

record options =
  log_sync :: bool
  launch_idle_thread :: bool
  nanosec_per_turn :: nat
  enforce_non_det_annotations :: bool

datatype native_op =
    MutexLock | MutexTryLock | MutexTimedLock | MutexUnlock
  | RWLockTryRdLock | RWLockTryWrLock
  | SemWait | SemTryWait | SemTimedWait | SemPost
  | CondWait | CondTimedWait | BarrierWait

datatype warning =
    WarnNoIdleThread | WarnMutexTimedLock | WarnCondTimedWait | WarnSemTimedWait

datatype event =
    EGetTurn
  | EPutTurn bool
  | EIncTurnCount
  | EWait addr "32 word"
  | ESignal addr bool
  | EBlock
  | EWakeup
  | EInterProEnd
  | EIdleThreadCondWait
  | ENative native_op addr
  | EClockGettime
  | EWarn warning

datatype syncfunc =
    pthread_mutex_lock | pthread_mutex_timedlock | pthread_mutex_unlock
  | pthread_rwlock_tryrdlock
  | pthread_barrier_wait
  | pthread_cond_wait | pthread_cond_timedwait
  | sem_wait | sem_timedwait | sem_post
  | tern_thread_end

record log_rec =
  rec_insid :: nat
  rec_op :: syncfunc
  rec_turn :: "32 word"
  rec_second_half :: bool
  rec_args :: "nat list"

record barrier_t =
  count :: nat
  narrived :: nat

record rt_state =
  errno :: int
  error :: int
  inNonDet :: bool
  my_base_time :: timespec
  turnCount :: "32 word"
  nthread :: int
  runq :: "nat list"
  barriers :: "addr \<rightharpoonup> barrier_t"
  native_ret :: "nat \<Rightarrow> int"
  native_errno :: "nat \<Rightarrow> int option"
  ncalls :: nat
  wait_results :: "int list"
  sched_errno :: "nat \<Rightarrow> int option"
  interPro :: bool
  clock_now :: timespec
  events :: "event list"
  sync_log :: "log_rec list"

text \<open>
  How a call ends. \<open>Return v\<close>: the wrapper returns \<open>v\<close>. \<open>AssertFail\<close>: an \<^verbatim>\<open>assert\<close>
  failed and the process aborted. \<open>Exited n\<close>: \<^verbatim>\<open>exit(n)\<close>. \<open>Trap\<close>: an integer
  division by zero. \<open>Blocked\<close>: the thread is parked in a scheduler wait that is never
  answered (the list \<open>wait_results\<close> is used up).
\<close>

datatype stop = AssertFail | Exited int | Trap | Blocked

datatype 'a outcome = Return 'a | Stop stop

definition seq :: "'a outcome \<times> rt_state \<Rightarrow> ('a \<Rightarrow> rt_state \<Rightarrow> 'b outcome \<times> rt_state)
    \<Rightarrow> 'b outcome \<times> rt_state" where
  "seq r f = (case r of (Return a, s) \<Rightarrow> f a s | (Stop e, s) \<Rightarrow> (Stop e, s))"

text \<open>The cast \<^verbatim>\<open>(uint64_t) x\<close>.\<close>

definition u64 :: "int \<Rightarrow> nat" where
  "u64 x = nat (x mod 2 ^ 64)"

text \<open>The value of an \<^verbatim>\<open>int\<close> expression: 32 bits, two's complement, wrapping.\<close>

definition i32 :: "int \<Rightarrow> int" where
  "i32 x = (x + 2 ^ 31) mod 2 ^ 32 - 2 ^ 31"

subsection \<open>Physical time to logical time\<close>

definition time_diff :: "timespec \<Rightarrow> timespec \<Rightarrow> timespec" where
  "time_diff start end' =
     (if tv_nsec end' - tv_nsec start < 0
      then \<lparr>tv_sec = tv_sec end' - tv_sec start - 1,
            tv_nsec = 1000000000 - tv_nsec start + tv_nsec end'\<rparr>
      else \<lparr>tv_sec = tv_sec end' - tv_sec start,
            tv_nsec = tv_nsec end' - tv_nsec start\<rparr>)"

definition MAX_REL :: nat where "MAX_REL = 1000000"

text \<open>
  \<^verbatim>\<open>int time2turn(uint64_t nsec)\<close>. The option \<open>nanosec_per_turn\<close> is read as the
  unsigned 64-bit divisor of the division; a divisor 0 traps.
\<close>

definition time2turn :: "options \<Rightarrow> nat \<Rightarrow> rt_state \<Rightarrow> int outcome \<times> rt_state" where
  "time2turn opt nsec s =
     (if \<not> launch_idle_thread opt
      then (Stop (Exited 1), s\<lparr>events := events s @ [EWarn WarnNoIdleThread]\<rparr>)
      else if nanosec_per_turn opt = 0 then (Stop Trap, s)
      else
        let ret64 = nsec div nanosec_per_turn opt;
            ret = (if ret64 > MAX_REL then int MAX_REL else int ret64)
        in (Return ret, s))"

text \<open>
  \<^verbatim>\<open>int relTimeToTurn(const struct timespec *reltime)\<close>; \<open>None\<close> is the null pointer.
  \<open>ns\<close> is an \<^verbatim>\<open>int64_t\<close>, passed to a \<^verbatim>\<open>uint64_t\<close> parameter. The thread count
  \<^verbatim>\<open>_S::nthread\<close> and \<open>ret\<close> are \<^verbatim>\<open>int\<close>s: the lower bound \<open>5 * nthread + 1\<close> is
  computed in 32 bits.
\<close>

definition relTimeToTurn :: "options \<Rightarrow> timespec option \<Rightarrow> rt_state \<Rightarrow> int outcome \<times> rt_state" where
  "relTimeToTurn opt reltime s =
     (case reltime of
        None \<Rightarrow> (Return 0, s)
      | Some rt \<Rightarrow>
          let ns = tv_sec rt * 1000000000 + tv_nsec rt
          in seq (time2turn opt (u64 ns) s)
               (\<lambda>ret s1.
                  (Return (if ret < i32 (5 * nthread s1 + 1) then i32 (5 * nthread s1 + 1)
                           else ret), s1)))"

subsection \<open>The scheduler and the world outside\<close>

text \<open>
  Modelled from the spec: the operations of the scheduler \<^verbatim>\<open>_S\<close> (record-scheduler.h is
  missing). Each is an event of the trace. A scheduler operation may leave any value in
  errno: \<open>sched_errno s k\<close> is what the operation at position \<open>k\<close> of the trace leaves
  there (\<open>None\<close>: it leaves errno alone). \<^verbatim>\<open>incTurnCount\<close> increments and reads the
  counter; \<^verbatim>\<open>wait\<close> parks the thread and returns what the scheduler answers (0, or
  \<open>ETIMEDOUT\<close> once the turn counter reached the deadline), or never returns.
\<close>

definition sched_op :: "event \<Rightarrow> rt_state \<Rightarrow> rt_state" where
  "sched_op ev s =
     s\<lparr>events := events s @ [ev],
       errno := (case sched_errno s (length (events s)) of None \<Rightarrow> errno s | Some e \<Rightarrow> e)\<rparr>"

definition getTurn :: "rt_state \<Rightarrow> rt_state" where
  "getTurn = sched_op EGetTurn"

definition putTurn :: "bool \<Rightarrow> rt_state \<Rightarrow> rt_state" where
  "putTurn end_of_thread = sched_op (EPutTurn end_of_thread)"

definition signal :: "addr \<Rightarrow> bool \<Rightarrow> rt_state \<Rightarrow> rt_state" where
  "signal chan all = sched_op (ESignal chan all)"

definition wakeup :: "rt_state \<Rightarrow> rt_state" where
  "wakeup = sched_op EWakeup"

definition idleThreadCondWait :: "rt_state \<Rightarrow> rt_state" where
  "idleThreadCondWait = sched_op EIdleThreadCondWait"

definition interProEnd :: "rt_state \<Rightarrow> bool \<times> rt_state" where
  "interProEnd s = (interPro s, sched_op EInterProEnd s)"

definition getTurnCount :: "rt_state \<Rightarrow> 32 word" where
  "getTurnCount s = turnCount s"

definition incTurnCount :: "rt_state \<Rightarrow> 32 word \<times> rt_state" where
  "incTurnCount s =
     (turnCount s + 1, s\<lparr>turnCount := turnCount s + 1, events := events s @ [EIncTurnCount]\<rparr>)"

definition wait :: "addr \<Rightarrow> 32 word \<Rightarrow> rt_state \<Rightarrow> int option \<times> rt_state" where
  "wait chan timeout s =
     (let s1 = sched_op (EWait chan timeout) s
      in case wait_results s1 of
           [] \<Rightarrow> (None, s1)
         | r # rs \<Rightarrow> (Some r, s1\<lparr>wait_results := rs\<rparr>))"

text \<open>
  A native primitive (libc, libpthread): the \<open>k\<close>-th native call of the thread returns
  \<open>native_ret s k\<close> and writes errno when \<open>native_errno s k\<close> says so.
\<close>

definition native :: "native_op \<Rightarrow> addr \<Rightarrow> rt_state \<Rightarrow> int \<times> rt_state" where
  "native op obj s =
     (let k = ncalls s
      in (native_ret s k,
          s\<lparr>events := events s @ [ENative op obj], ncalls := k + 1,
            errno := (case native_errno s k of None \<Rightarrow> errno s | Some e \<Rightarrow> e)\<rparr>))"

definition clock_gettime :: "rt_state \<Rightarrow> timespec \<times> rt_state" where
  "clock_gettime s = (clock_now s, s\<lparr>events := events s @ [EClockGettime]\<rparr>)"

definition warn :: "warning \<Rightarrow> rt_state \<Rightarrow> rt_state" where
  "warn w s = s\<lparr>events := events s @ [EWarn w]\<rparr>"

text \<open>The wrapper passes the call to the native primitive (the non-deterministic region).\<close>

definition passthrough :: "native_op \<Rightarrow> addr \<Rightarrow> rt_state \<Rightarrow> int outcome \<times> rt_state" where
  "passthrough op obj s = (case native op obj s of (ret, s1) \<Rightarrow> (Return ret, s1))"

subsection \<open>Taking and releasing the turn\<close>

definition logSync :: "nat \<Rightarrow> syncfunc \<Rightarrow> 32 word \<Rightarrow> bool \<Rightarrow> nat list \<Rightarrow> rt_state \<Rightarrow> rt_state" where
  "logSync ins syncop turn second_half args s =
     s\<lparr>sync_log := sync_log s @
         [\<lparr>rec_insid = ins, rec_op = syncop, rec_turn = turn,
           rec_second_half = second_half, rec_args = args\<rparr>]\<rparr>"

definition sched_timer_start :: "options \<Rightarrow> bool \<Rightarrow> rt_state \<Rightarrow> unit outcome \<times> rt_state" where
  "sched_timer_start opt log_sync' s =
     (if enforce_non_det_annotations opt \<and> inNonDet s then (Stop AssertFail, s)
      else if log_sync' then (Return (), getTurn s)
      else (Return (), getTurn s))"

definition sched_timer_end_fh :: "bool \<Rightarrow> nat \<Rightarrow> syncfunc \<Rightarrow> nat list \<Rightarrow> rt_state \<Rightarrow> rt_state" where
  "sched_timer_end_fh log_sync' ins syncop args s =
     (if log_sync'
      then (case incTurnCount s of (nturn, s1) \<Rightarrow> logSync ins syncop nturn False args s1)
      else snd (incTurnCount s))"

definition sched_timer_end :: "bool \<Rightarrow> nat \<Rightarrow> syncfunc \<Rightarrow> nat list \<Rightarrow> rt_state \<Rightarrow> rt_state" where
  "sched_timer_end log_sync' ins syncop args s =
     (let backup_errno = errno s;
          s1 = (if log_sync'
                then (let s' = snd (incTurnCount s)
                      in logSync ins syncop (getTurnCount s') True args s')
                else snd (incTurnCount s));
          s2 = putTurn False s1
      in s2\<lparr>errno := backup_errno\<rparr>)"

definition sched_thread_end :: "bool \<Rightarrow> nat \<Rightarrow> syncfunc \<Rightarrow> nat \<Rightarrow> rt_state \<Rightarrow> rt_state" where
  "sched_thread_end log_sync' ins syncop th s =
     (let backup_errno = errno s;
          s1 = (if log_sync'
                then (let s' = snd (incTurnCount s)
                      in logSync ins syncop (getTurnCount s') True [th] s')
                else snd (incTurnCount s));
          s2 = putTurn True s1
      in s2\<lparr>errno := backup_errno\<rparr>)"

definition SCHED_GET_TURN :: "options \<Rightarrow> rt_state \<Rightarrow> unit outcome \<times> rt_state" where
  "SCHED_GET_TURN opt s =
     (if log_sync opt then sched_timer_start opt True s else sched_timer_start opt False s)"

definition SCHED_INC_TURN :: "options \<Rightarrow> nat \<Rightarrow> syncfunc \<Rightarrow> nat list \<Rightarrow> rt_state \<Rightarrow> rt_state" where
  "SCHED_INC_TURN opt ins syncop args s =
     (if log_sync opt then sched_timer_end_fh True ins syncop args s
      else sched_timer_end_fh False ins syncop args s)"

definition SCHED_PUT_TURN :: "options \<Rightarrow> nat \<Rightarrow> syncfunc \<Rightarrow> nat list \<Rightarrow> rt_state \<Rightarrow> rt_state" where
  "SCHED_PUT_TURN opt ins syncop args s =
     (if log_sync opt then sched_timer_end True ins syncop args s
      else sched_timer_end False ins syncop args s)"

definition BLOCK_TIMER_END :: "rt_state \<Rightarrow> rt_state" where
  "BLOCK_TIMER_END s =
     (let backup_errno = errno s;
          s2 = (case interProEnd s of (b, s1) \<Rightarrow> if b then wakeup s1 else s1)
      in s2\<lparr>errno := backup_errno\<rparr>)"

subsection \<open>Mutex\<close>

text \<open>
  The loop of \<^verbatim>\<open>pthreadMutexLockHelper\<close>: try the native lock; on a failure assert
  that it is \<open>EBUSY\<close>, wait on the mutex, return \<open>ETIMEDOUT\<close> if the wait timed out, and
  try again otherwise.
\<close>

function pthreadMutexLockHelper :: "addr \<Rightarrow> 32 word \<Rightarrow> rt_state \<Rightarrow> int outcome \<times> rt_state" where
  "pthreadMutexLockHelper mu timeout s =
     (case native MutexTryLock mu s of
        (ret, s1) \<Rightarrow>
          if ret = 0 then (Return 0, s1)
          else if ret \<noteq> EBUSY then (Stop AssertFail, s1)
          else (case wait mu timeout s1 of
                  (None, s2) \<Rightarrow> (Stop Blocked, s2)
                | (Some r, s2) \<Rightarrow>
                    if r = ETIMEDOUT then (Return ETIMEDOUT, s2)
                    else pthreadMutexLockHelper mu timeout s2))"
  by pat_completeness auto
termination
  by (relation "measure (\<lambda>(mu, timeout, s). length (wait_results s))")
     (auto simp: native_def wait_def sched_op_def Let_def split: list.splits)

declare pthreadMutexLockHelper.simps [simp del]

definition pthreadMutexLock :: "options \<Rightarrow> nat \<Rightarrow> addr \<Rightarrow> rt_state \<Rightarrow> int outcome \<times> rt_state" where
  "pthreadMutexLock opt ins mu s =
     (if enforce_non_det_annotations opt \<and> inNonDet s then passthrough MutexLock mu s
      else
        seq (SCHED_GET_TURN opt s) (\<lambda>_ s1.
        seq (pthreadMutexLockHelper mu FOREVER (s1\<lparr>errno := error s1\<rparr>)) (\<lambda>_ s2.
          (Return 0, SCHED_PUT_TURN opt ins pthread_mutex_lock [mu] (s2\<lparr>error := errno s2\<rparr>)))))"

text \<open>
  The block every timed wrapper starts with: the base of the absolute deadline is the
  thread's base time, or the wall clock (with a warning) when no base time is set.
\<close>

definition base_or_clock :: "warning \<Rightarrow> rt_state \<Rightarrow> timespec \<times> rt_state" where
  "base_or_clock w s =
     (if tv_sec (my_base_time s) = 0 then clock_gettime (warn w s)
      else (\<lparr>tv_sec = tv_sec (my_base_time s), tv_nsec = tv_nsec (my_base_time s)\<rparr>, s))"

definition pthreadMutexTimedLock ::
    "options \<Rightarrow> nat \<Rightarrow> addr \<Rightarrow> timespec option \<Rightarrow> rt_state \<Rightarrow> int outcome \<times> rt_state" where
  "pthreadMutexTimedLock opt ins mu abstime s =
     (if enforce_non_det_annotations opt \<and> inNonDet s then passthrough MutexTimedLock mu s
      else case abstime of
        None \<Rightarrow> pthreadMutexLock opt ins mu s
      | Some abstime' \<Rightarrow>
          (case base_or_clock WarnMutexTimedLock s of
             (cur_time, s1) \<Rightarrow>
               let rel_time = time_diff cur_time abstime'
               in seq (SCHED_GET_TURN opt s1) (\<lambda>_ s2.
                  seq (relTimeToTurn opt (Some rel_time) s2) (\<lambda>n s3.
                    let timeout = getTurnCount s3 + word_of_int n
                    in seq (pthreadMutexLockHelper mu timeout (s3\<lparr>errno := error s3\<rparr>)) (\<lambda>ret s4.
                         (Return ret,
                          SCHED_PUT_TURN opt ins pthread_mutex_timedlock [mu, u64 ret]
                            (s4\<lparr>error := errno s4\<rparr>)))))))"

definition pthreadMutexUnlock :: "options \<Rightarrow> nat \<Rightarrow> addr \<Rightarrow> rt_state \<Rightarrow> int outcome \<times> rt_state" where
  "pthreadMutexUnlock opt ins mu s =
     (if enforce_non_det_annotations opt \<and> inNonDet s then passthrough MutexUnlock mu s
      else
        seq (SCHED_GET_TURN opt s) (\<lambda>_ s1.
          case native MutexUnlock mu (s1\<lparr>errno := error s1\<rparr>) of
            (ret, s2) \<Rightarrow>
              let s3 = s2\<lparr>error := errno s2\<rparr>
              in if ret \<noteq> 0 then (Stop AssertFail, s3)
                 else (Return ret,
                       SCHED_PUT_TURN opt ins pthread_mutex_unlock [mu, u64 ret]
                         (signal mu False s3))))"

subsection \<open>Read-write lock\<close>

text \<open>\<^verbatim>\<open>RecorderRT<_S>::__pthread_rwlock_tryrdlock\<close>.\<close>

definition RecorderRT_pthread_rwlock_tryrdlock ::
    "options \<Rightarrow> nat \<Rightarrow> addr \<Rightarrow> rt_state \<Rightarrow> int outcome \<times> rt_state" where
  "RecorderRT_pthread_rwlock_tryrdlock opt ins rwlock s =
     (if enforce_non_det_annotations opt \<and> inNonDet s then passthrough RWLockTryRdLock rwlock s
      else
        seq (SCHED_GET_TURN opt s) (\<lambda>_ s1.
          case native RWLockTryWrLock rwlock (s1\<lparr>errno := error s1\<rparr>) of
            (ret, s2) \<Rightarrow>
              (Return ret,
               SCHED_PUT_TURN opt ins pthread_rwlock_tryrdlock [rwlock, u64 ret]
                 (s2\<lparr>error := errno s2\<rparr>))))"

subsection \<open>Barrier\<close>

definition pthreadBarrierWait :: "options \<Rightarrow> nat \<Rightarrow> addr \<Rightarrow> rt_state \<Rightarrow> int outcome \<times> rt_state" where
  "pthreadBarrierWait opt ins barrier s =
     (if enforce_non_det_annotations opt \<and> inNonDet s then passthrough BarrierWait barrier s
      else
        seq (SCHED_GET_TURN opt s) (\<lambda>_ s1.
          let s2 = SCHED_INC_TURN opt ins pthread_barrier_wait [barrier] s1
          in case barriers s2 barrier of
               None \<Rightarrow> (Stop AssertFail, s2)
             | Some b \<Rightarrow>
                 let b1 = b\<lparr>narrived := narrived b + 1\<rparr>;
                     s3 = s2\<lparr>barriers := (barriers s2)(barrier \<mapsto> b1)\<rparr>
                 in if \<not> narrived b1 \<le> count b1 then (Stop AssertFail, s3)
                    else if count b1 = narrived b1 then
                      let s4 = s3\<lparr>barriers := (barriers s3)(barrier \<mapsto> b1\<lparr>narrived := 0\<rparr>)\<rparr>;
                          s5 = signal barrier True s4;
                          s6 = putTurn False s5;
                          s7 = getTurn s6
                      in (Return PTHREAD_BARRIER_SERIAL_THREAD,
                          SCHED_PUT_TURN opt ins pthread_barrier_wait [barrier] s7)
                    else
                      (case wait barrier FOREVER s3 of
                         (None, s4) \<Rightarrow> (Stop Blocked, s4)
                       | (Some _, s4) \<Rightarrow>
                           (Return 0, SCHED_PUT_TURN opt ins pthread_barrier_wait [barrier] s4))))"

subsection \<open>Semaphore\<close>

function semWait_loop :: "addr \<Rightarrow> rt_state \<Rightarrow> unit outcome \<times> rt_state" where
  "semWait_loop sem s =
     (case native SemTryWait sem s of
        (ret, s1) \<Rightarrow>
          if ret = 0 then (Return (), s1)
          else if errno s1 \<noteq> EAGAIN then (Stop AssertFail, s1)
          else (case wait sem FOREVER s1 of
                  (None, s2) \<Rightarrow> (Stop Blocked, s2)
                | (Some _, s2) \<Rightarrow> semWait_loop sem s2))"
  by pat_completeness auto
termination
  by (relation "measure (\<lambda>(sem, s). length (wait_results s))")
     (auto simp: native_def wait_def sched_op_def Let_def split: list.splits)

declare semWait_loop.simps [simp del]

definition semWait :: "options \<Rightarrow> nat \<Rightarrow> addr \<Rightarrow> rt_state \<Rightarrow> int outcome \<times> rt_state" where
  "semWait opt ins sem s =
     (if enforce_non_det_annotations opt \<and> inNonDet s then passthrough SemWait sem s
      else
        seq (SCHED_GET_TURN opt s) (\<lambda>_ s1.
        seq (semWait_loop sem s1) (\<lambda>_ s2.
          (Return 0, SCHED_PUT_TURN opt ins sem_wait [sem] s2))))"

text \<open>
  The loop of \<^verbatim>\<open>semTimedWait\<close>. It returns \<open>(ret, saved_err)\<close> as the loop leaves
  them: \<open>(0, 0)\<close> when the native try-operation succeeded, \<open>(- 1, ETIMEDOUT)\<close> after the
  \<^verbatim>\<open>break\<close>, which has also stored \<open>ETIMEDOUT\<close> in the caller's error cell.
\<close>

function semTimedWait_loop :: "addr \<Rightarrow> 32 word \<Rightarrow> rt_state \<Rightarrow> (int \<times> int) outcome \<times> rt_state" where
  "semTimedWait_loop sem timeout s =
     (case native SemTryWait sem s of
        (ret, s1) \<Rightarrow>
          if ret = 0 then (Return (0, 0), s1)
          else if errno s1 \<noteq> EAGAIN then (Stop AssertFail, s1)
          else (case wait sem timeout s1 of
                  (None, s2) \<Rightarrow> (Stop Blocked, s2)
                | (Some r, s2) \<Rightarrow>
                    if r = ETIMEDOUT then (Return (- 1, ETIMEDOUT), s2\<lparr>error := ETIMEDOUT\<rparr>)
                    else semTimedWait_loop sem timeout s2))"
  by pat_completeness auto
termination
  by (relation "measure (\<lambda>(sem, timeout, s). length (wait_results s))")
     (auto simp: native_def wait_def sched_op_def Let_def split: list.splits)

declare semTimedWait_loop.simps [simp del]

definition semTimedWait ::
    "options \<Rightarrow> nat \<Rightarrow> addr \<Rightarrow> timespec option \<Rightarrow> rt_state \<Rightarrow> int outcome \<times> rt_state" where
  "semTimedWait opt ins sem abstime s =
     (if enforce_non_det_annotations opt \<and> inNonDet s then passthrough SemTimedWait sem s
      else case abstime of
        None \<Rightarrow> semWait opt ins sem s
      | Some abstime' \<Rightarrow>
          (case base_or_clock WarnSemTimedWait s of
             (cur_time, s1) \<Rightarrow>
               let rel_time = time_diff cur_time abstime'
               in seq (SCHED_GET_TURN opt s1) (\<lambda>_ s2.
                  seq (relTimeToTurn opt (Some rel_time) s2) (\<lambda>n s3.
                    let timeout = getTurnCount s3 + word_of_int n
                    in seq (semTimedWait_loop sem timeout s3) (\<lambda>(ret, saved_err) s4.
                         let s5 = SCHED_PUT_TURN opt ins sem_timedwait [sem, u64 ret] s4
                         in (Return ret, s5\<lparr>errno := saved_err\<rparr>))))))"

definition semPost :: "options \<Rightarrow> nat \<Rightarrow> addr \<Rightarrow> rt_state \<Rightarrow> int outcome \<times> rt_state" where
  "semPost opt ins sem s =
     (if enforce_non_det_annotations opt \<and> inNonDet s then passthrough SemPost sem s
      else
        seq (SCHED_GET_TURN opt s) (\<lambda>_ s1.
          case native SemPost sem s1 of
            (ret, s2) \<Rightarrow>
              if ret \<noteq> 0 then (Stop AssertFail, s2)
              else (Return 0,
                    SCHED_PUT_TURN opt ins sem_post [sem, u64 ret] (signal sem False s2))))"

subsection \<open>Condition variable\<close>

definition pthreadCondWait ::
    "options \<Rightarrow> nat \<Rightarrow> addr \<Rightarrow> addr \<Rightarrow> rt_state \<Rightarrow> int outcome \<times> rt_state" where
  "pthreadCondWait opt ins cv mu s =
     (if enforce_non_det_annotations opt \<and> inNonDet s then passthrough CondWait cv s
      else
        seq (SCHED_GET_TURN opt s) (\<lambda>_ s1.
          let s2 = snd (native MutexUnlock mu s1);
              s3 = signal mu False s2;
              s4 = SCHED_INC_TURN opt ins pthread_cond_wait [cv, mu] s3
          in case wait cv FOREVER s4 of
               (None, s5) \<Rightarrow> (Stop Blocked, s5)
             | (Some _, s5) \<Rightarrow>
                 seq (pthreadMutexLockHelper mu FOREVER (s5\<lparr>errno := error s5\<rparr>)) (\<lambda>_ s6.
                   (Return 0,
                    SCHED_PUT_TURN opt ins pthread_cond_wait [cv, mu] (s6\<lparr>error := errno s6\<rparr>)))))"

definition pthreadCondTimedWait ::
    "options \<Rightarrow> nat \<Rightarrow> addr \<Rightarrow> addr \<Rightarrow> timespec option \<Rightarrow> rt_state \<Rightarrow> int outcome \<times> rt_state" where
  "pthreadCondTimedWait opt ins cv mu abstime s =
     (case abstime of
        None \<Rightarrow> pthreadCondWait opt ins cv mu s
      | Some abstime' \<Rightarrow>
          (case base_or_clock WarnCondTimedWait s of
             (cur_time, s1) \<Rightarrow>
               let rel_time = time_diff cur_time abstime'
               in if enforce_non_det_annotations opt \<and> inNonDet s1
                  then passthrough CondTimedWait cv s1
                  else
                    seq (SCHED_GET_TURN opt s1) (\<lambda>_ s2.
                      let s3 = snd (native MutexUnlock mu s2);
                          s4 = SCHED_INC_TURN opt ins pthread_cond_timedwait [cv, mu, 0] s3;
                          s5 = signal mu False s4
                      in seq (relTimeToTurn opt (Some rel_time) s5) (\<lambda>nTurns s6.
                           let timeout = getTurnCount s6 + word_of_int nTurns
                           in case wait cv timeout s6 of
                                (None, s7) \<Rightarrow> (Stop Blocked, s7)
                              | (Some ret, s7) \<Rightarrow>
                                  seq (pthreadMutexLockHelper mu FOREVER (s7\<lparr>errno := error s7\<rparr>))
                                    (\<lambda>_ s8.
                                      (Return ret,
                                       SCHED_PUT_TURN opt ins pthread_cond_timedwait
                                         [cv, mu, u64 ret] (s8\<lparr>error := errno s8\<rparr>)))))))"

subsection \<open>Idle thread\<close>

text \<open>
  \<^verbatim>\<open>idle_cond_wait\<close>. The counter read by \<^verbatim>\<open>incTurnCount\<close> is stored in an
  \<^verbatim>\<open>int\<close> and asserted non-negative.
\<close>

definition idle_cond_wait :: "rt_state \<Rightarrow> unit outcome \<times> rt_state" where
  "idle_cond_wait s =
     (let s1 = getTurn s
      in case incTurnCount s1 of
           (turn, s2) \<Rightarrow>
             if \<not> 0 \<le> sint turn then (Stop AssertFail, s2)
             else if length (runq s2) \<ge> 2 then (Return (), idleThreadCondWait s2)
             else (Return (), putTurn False s2))"

subsection \<open>Concrete inputs\<close>

definition opts0 :: options where
  "opts0 = \<lparr>log_sync = True, launch_idle_thread = True, nanosec_per_turn = 1000,
            enforce_non_det_annotations = False\<rparr>"

definition s0 :: rt_state where
  "s0 = \<lparr>errno = 0, error = 0, inNonDet = False,
         my_base_time = \<lparr>tv_sec = 0, tv_nsec = 0\<rparr>,
         turnCount = 0, nthread = 2, runq = [0],
         barriers = Map.empty,
         native_ret = (\<lambda>k. 0), native_errno = (\<lambda>k. None), ncalls = 0,
         wait_results = [],
         sched_errno = (\<lambda>k. None), interPro = True,
         clock_now = \<lparr>tv_sec = 1700000000, tv_nsec = 0\<rparr>,
         events = [], sync_log = []\<rparr>"

definition sA :: rt_state where
  "sA = s0\<lparr>native_ret := (\<lambda>k. if k < 2 then 16 else 0), wait_results := [0, 0]\<rparr>"

definition sB :: rt_state where
  "sB = s0\<lparr>native_ret := (\<lambda>k. if k < 1 then 16 else 35), wait_results := [0]\<rparr>"

definition abs1 :: timespec where
  "abs1 = \<lparr>tv_sec = 1700000000, tv_nsec = 2000000\<rparr>"

definition sT :: rt_state where
  "sT = s0\<lparr>native_ret := (\<lambda>k. 16), wait_results := [0, 110]\<rparr>"

definition sSemT :: rt_state where
  "sSemT = s0\<lparr>native_ret := (\<lambda>k. - 1), native_errno := (\<lambda>k. Some 11),
               wait_results := [0, 110]\<rparr>"

definition sSemOk :: rt_state where
  "sSemOk = s0\<lparr>native_ret := (\<lambda>k. if k < 1 then - 1 else 0),
                native_errno := (\<lambda>k. if k < 1 then Some 11 else None),
                wait_results := [0]\<rparr>"

subsection \<open>Reading a trace\<close>

text \<open>
  \<open>new_events s s'\<close> are the events a call added to the trace; \<open>occurs_before a b es\<close>
  holds when \<open>b\<close> stands in \<open>es\<close> after the first \<open>a\<close>.
\<close>

definition new_events :: "rt_state \<Rightarrow> rt_state \<Rightarrow> event list" where
  "new_events s s' = drop (length (events s)) (events s')"

definition occurs_before :: "'a \<Rightarrow> 'a \<Rightarrow> 'a list \<Rightarrow> bool" where
  "occurs_before a b es = (a \<in> set es \<and> b \<in> set (tl (dropWhile (\<lambda>e. e \<noteq> a) es)))"

subsection \<open>A group of arrivals at a barrier\<close>

text \<open>
  The calls of \<open>k\<close> threads to \<^verbatim>\<open>pthreadBarrierWait\<close> on one barrier, in the order
  in which the callers take the turn. The barrier table is written only before a caller
  waits, so running the calls one after the other changes the table as the interleaved
  calls do. Each call is listed with its result and the events it added.
\<close>

fun barrier_arrivals ::
    "options \<Rightarrow> nat \<Rightarrow> addr \<Rightarrow> nat \<Rightarrow> rt_state \<Rightarrow> (int outcome \<times> event list) list \<times> rt_state" where
  "barrier_arrivals opt ins barrier 0 s = ([], s)"
| "barrier_arrivals opt ins barrier (Suc k) s =
     (case pthreadBarrierWait opt ins barrier s of
        (out, s1) \<Rightarrow>
          (case barrier_arrivals opt ins barrier k s1 of
             (rs, s2) \<Rightarrow> ((out, new_events s s1) # rs, s2)))"

definition waiter_trace :: "addr \<Rightarrow> event list" where
  "waiter_trace barrier =
     [EGetTurn, EIncTurnCount, EWait barrier FOREVER, EIncTurnCount, EPutTurn False]"

definition last_arriver_trace :: "addr \<Rightarrow> event list" where
  "last_arriver_trace barrier =
     [EGetTurn, EIncTurnCount, ESignal barrier True, EPutTurn False, EGetTurn,
      EIncTurnCount, EPutTurn False]"

definition sBar :: rt_state where
  "sBar = s0\<lparr>barriers := [300 \<mapsto> \<lparr>count = 3, narrived = 0\<rparr>], wait_results := [0, 0]\<rparr>"

definition sTwo :: rt_state where
  "sTwo = s0\<lparr>runq := [0, 1]\<rparr>"

definition sClobber :: rt_state where
  "sClobber = s0\<lparr>errno := 5, sched_errno := (\<lambda>k. Some 99)\<rparr>"

subsection \<open>Two threads and the turn\<close>

text \<open>
  A global trace lists the events of several threads, each tagged with its thread;
  \<open>merges xs ys\<close> are the interleavings of two threads' traces, each in program order.
\<close>

fun merges :: "'a list \<Rightarrow> 'a list \<Rightarrow> 'a list list" where
  "merges [] ys = [ys]"
| "merges xs [] = [xs]"
| "merges (x # xs) (y # ys) =
     map ((#) x) (merges xs (y # ys)) @ map ((#) y) (merges (x # xs) ys)"

declare merges.simps [simp del]

text \<open>
  Modelled from the spec: the turn of the scheduler, whose source is missing (``getTurn:
  block until this descriptor is head of the run queue''; ``at every moment at most one
  thread has the turn; between a paired getTurn/putTurn by the same thread, no other
  thread executes an instrumented critical section''). \<open>turn_ok h g\<close>: the global trace
  \<open>g\<close> respects the turn when \<open>h\<close> holds it at the start: a getTurn completes only when
  no thread holds the turn, and putTurn is called by the holder.
\<close>

fun turn_ok :: "nat option \<Rightarrow> (nat \<times> event) list \<Rightarrow> bool" where
  "turn_ok h [] = True"
| "turn_ok h ((t, EGetTurn) # g) = (h = None \<and> turn_ok (Some t) g)"
| "turn_ok h ((t, EPutTurn e) # g) = (h = Some t \<and> turn_ok None g)"
| "turn_ok h ((t, ev) # g) = turn_ok h g"

text \<open>
  \<open>release_trace\<close> is the trace of a release as \<^verbatim>\<open>pthreadMutexUnlock\<close> and
  \<^verbatim>\<open>semPost\<close> perform it (proved below from the wrappers). \<open>wakes_follow_turns t1 c1 t2 c2 g\<close>:
  in \<open>g\<close> the signals of threads \<open>t1\<close> and \<open>t2\<close> on their channels stand in the order of
  the two threads' putTurn.
\<close>

definition release_trace :: "native_op \<Rightarrow> addr \<Rightarrow> event list" where
  "release_trace op x = [EGetTurn, ENative op x, ESignal x False, EIncTurnCount, EPutTurn False]"

definition wakes_follow_turns :: "nat \<Rightarrow> addr \<Rightarrow> nat \<Rightarrow> addr \<Rightarrow> (nat \<times> event) list \<Rightarrow> bool" where
  "wakes_follow_turns t1 c1 t2 c2 g =
     ((occurs_before (t1, ESignal c1 False) (t2, ESignal c2 False) g
         = occurs_before (t1, EPutTurn False) (t2, EPutTurn False) g)
    \<and> (occurs_before (t2, ESignal c2 False) (t1, ESignal c1 False) g
         = occurs_before (t2, EPutTurn False) (t1, EPutTurn False) g)
    \<and> (occurs_before (t1, ESignal c1 False) (t2, ESignal c2 False) g
         \<noteq> occurs_before (t2, ESignal c2 False) (t1, ESignal c1 False) g))"

text \<open>
  A release that would signal after putTurn: not the code's, the variant the ordering of
  the wrappers rules out.
\<close>

definition late_release_trace :: "native_op \<Rightarrow> addr \<Rightarrow> event list" where
  "late_release_trace op x =
     [EGetTurn, ENative op x, EIncTurnCount, EPutTurn False, ESignal x False]"

section \<open>Theorems\<close>

subsection \<open>Facts about the loops\<close>

lemma helper_outcomes:
  "fst (pthreadMutexLockHelper mu t s) \<in> {Return 0, Return ETIMEDOUT, Stop AssertFail, Stop Blocked}"
proof (induction mu t s rule: pthreadMutexLockHelper.induct)
  case (1 mu timeout s)
  show ?case
    using 1
    by (subst pthreadMutexLockHelper.simps)
       (auto split: if_splits list.splits prod.splits option.splits)
qed

lemma helper_no_assert:
  "(\<forall>k\<ge>ncalls s. native_ret s k = 0 \<or> native_ret s k = EBUSY) \<Longrightarrow>
   fst (pthreadMutexLockHelper mu t s) \<noteq> Stop AssertFail"
proof (induction mu t s rule: pthreadMutexLockHelper.induct)
  case (1 mu timeout s)
  show ?case
    using 1
    by (subst pthreadMutexLockHelper.simps)
       (auto simp: native_def wait_def sched_op_def Let_def
             split: if_splits list.splits prod.splits option.splits)
qed

lemma helper_step:
  assumes "native_ret s (ncalls s) = EBUSY" and "wait_results s = w # ws" and "w \<noteq> ETIMEDOUT"
  shows "\<exists>s2. pthreadMutexLockHelper mu t s = pthreadMutexLockHelper mu t s2
           \<and> wait_results s2 = ws \<and> native_ret s2 = native_ret s \<and> ncalls s2 = ncalls s + 1"
proof (intro exI conjI)
  let ?s2 = "snd (wait mu t (snd (native MutexTryLock mu s)))"
  show "pthreadMutexLockHelper mu t s = pthreadMutexLockHelper mu t ?s2"
    using assms
    by (simp add: pthreadMutexLockHelper.simps [of mu t s] native_def wait_def sched_op_def
        Let_def EBUSY_def)
  show "wait_results ?s2 = ws" "native_ret ?s2 = native_ret s" "ncalls ?s2 = ncalls s + 1"
    using assms by (simp_all add: native_def wait_def sched_op_def Let_def)
qed

lemma helper_timeout:
  "wait_results s = ws @ ETIMEDOUT # rest \<Longrightarrow> ETIMEDOUT \<notin> set ws \<Longrightarrow>
   (\<forall>j\<le>length ws. native_ret s (ncalls s + j) = EBUSY) \<Longrightarrow>
   fst (pthreadMutexLockHelper mu t s) = Return ETIMEDOUT
   \<and> ncalls (snd (pthreadMutexLockHelper mu t s)) = ncalls s + length ws + 1"
proof (induction ws arbitrary: s)
  case Nil
  then show ?case
    by (simp add: pthreadMutexLockHelper.simps [of mu t s] native_def wait_def sched_op_def
        Let_def EBUSY_def)
next
  case (Cons w ws)
  have e: "native_ret s (ncalls s) = EBUSY" using Cons.prems(3) by (auto dest: spec [of _ 0])
  from helper_step [OF e, of w "ws @ ETIMEDOUT # rest" mu t] Cons.prems
  obtain s2 where s2: "pthreadMutexLockHelper mu t s = pthreadMutexLockHelper mu t s2"
    "wait_results s2 = ws @ ETIMEDOUT # rest" "native_ret s2 = native_ret s"
    "ncalls s2 = ncalls s + 1" by auto
  have c: "\<forall>j\<le>length ws. native_ret s2 (ncalls s2 + j) = EBUSY"
    using Cons.prems(3) s2 by auto
  have d: "ETIMEDOUT \<notin> set ws" using Cons.prems by simp
  show ?case using Cons.IH [OF s2(2) d c] s2 by simp
qed

lemma helper_ok:
  "wait_results s = ws @ rest \<Longrightarrow> ETIMEDOUT \<notin> set ws \<Longrightarrow>
   (\<forall>j<length ws. native_ret s (ncalls s + j) = EBUSY) \<Longrightarrow>
   native_ret s (ncalls s + length ws) = 0 \<Longrightarrow>
   fst (pthreadMutexLockHelper mu t s) = Return 0
   \<and> ncalls (snd (pthreadMutexLockHelper mu t s)) = ncalls s + length ws + 1"
proof (induction ws arbitrary: s)
  case Nil
  then show ?case
    by (simp add: pthreadMutexLockHelper.simps [of mu t s] native_def wait_def sched_op_def
        Let_def EBUSY_def)
next
  case (Cons w ws)
  have e: "native_ret s (ncalls s) = EBUSY" using Cons.prems(3) by (auto dest: spec [of _ 0])
  from helper_step [OF e, of w "ws @ rest" mu t] Cons.prems
  obtain s2 where s2: "pthreadMutexLockHelper mu t s = pthreadMutexLockHelper mu t s2"
    "wait_results s2 = ws @ rest" "native_ret s2 = native_ret s"
    "ncalls s2 = ncalls s + 1" by auto
  have c: "\<forall>j<length ws. native_ret s2 (ncalls s2 + j) = EBUSY"
    using Cons.prems(3) s2 by auto
  have c': "native_ret s2 (ncalls s2 + length ws) = 0"
    using Cons.prems(4) s2 by auto
  have d: "ETIMEDOUT \<notin> set ws" using Cons.prems by simp
  show ?case using Cons.IH [OF s2(2) d c c'] s2 by simp
qed

lemma helper_assert:
  "wait_results s = ws @ rest \<Longrightarrow> ETIMEDOUT \<notin> set ws \<Longrightarrow>
   (\<forall>j<length ws. native_ret s (ncalls s + j) = EBUSY) \<Longrightarrow>
   native_ret s (ncalls s + length ws) \<noteq> 0 \<Longrightarrow>
   native_ret s (ncalls s + length ws) \<noteq> EBUSY \<Longrightarrow>
   fst (pthreadMutexLockHelper mu t s) = Stop AssertFail"
proof (induction ws arbitrary: s)
  case Nil
  then show ?case
    by (simp add: pthreadMutexLockHelper.simps [of mu t s] native_def wait_def sched_op_def
        Let_def EBUSY_def)
next
  case (Cons w ws)
  have e: "native_ret s (ncalls s) = EBUSY" using Cons.prems(3) by (auto dest: spec [of _ 0])
  from helper_step [OF e, of w "ws @ rest" mu t] Cons.prems
  obtain s2 where s2: "pthreadMutexLockHelper mu t s = pthreadMutexLockHelper mu t s2"
    "wait_results s2 = ws @ rest" "native_ret s2 = native_ret s"
    "ncalls s2 = ncalls s + 1" by auto
  have c: "\<forall>j<length ws. native_ret s2 (ncalls s2 + j) = EBUSY"
    using Cons.prems(3) s2 by auto
  have c': "native_ret s2 (ncalls s2 + length ws) \<noteq> 0"
     "native_ret s2 (ncalls s2 + length ws) \<noteq> EBUSY"
    using Cons.prems(4,5) s2 by auto
  have d: "ETIMEDOUT \<notin> set ws" using Cons.prems by simp
  show ?case using Cons.IH [OF s2(2) d c c'] s2 by simp
qed

lemma helper_returns:
  "(\<forall>j<n. native_ret s (ncalls s + j) = EBUSY) \<Longrightarrow> native_ret s (ncalls s + n) = 0 \<Longrightarrow>
   n \<le> length (wait_results s) \<Longrightarrow> \<exists>r. fst (pthreadMutexLockHelper mu t s) = Return r"
proof (induction n arbitrary: s)
  case 0
  then show ?case
    by (simp add: pthreadMutexLockHelper.simps [of mu t s] native_def Let_def)
next
  case (Suc n)
  from Suc.prems(3) obtain w ws where w: "wait_results s = w # ws"
    by (cases "wait_results s") auto
  have e: "native_ret s (ncalls s) = EBUSY" using Suc.prems(1) by (auto dest: spec [of _ 0])
  show ?case
  proof (cases "w = ETIMEDOUT")
    case True
    then show ?thesis using e w
      by (simp add: pthreadMutexLockHelper.simps [of mu t s] native_def wait_def sched_op_def
          Let_def EBUSY_def)
  next
    case False
    from helper_step [OF e w False, of mu t]
    obtain s2 where s2: "pthreadMutexLockHelper mu t s = pthreadMutexLockHelper mu t s2"
      "wait_results s2 = ws" "native_ret s2 = native_ret s"
      "ncalls s2 = ncalls s + 1" by auto
    have "\<exists>r. fst (pthreadMutexLockHelper mu t s2) = Return r"
    proof (rule Suc.IH)
      show "\<forall>j<n. native_ret s2 (ncalls s2 + j) = EBUSY"
        using Suc.prems(1) s2 by auto
      show "native_ret s2 (ncalls s2 + n) = 0" using Suc.prems(2) s2 by auto
      show "n \<le> length (wait_results s2)" using Suc.prems(3) s2 w by auto
    qed
    then show ?thesis using s2 by simp
  qed
qed


lemmas turn_defs = SCHED_GET_TURN_def SCHED_PUT_TURN_def SCHED_INC_TURN_def
  sched_timer_start_def sched_timer_end_def sched_timer_end_fh_def
  getTurn_def putTurn_def signal_def sched_op_def incTurnCount_def getTurnCount_def logSync_def

lemma pthreadMutexLock_unfold:
  assumes "\<not> (enforce_non_det_annotations opt \<and> inNonDet s)"
  shows "\<exists>sh. native_ret sh = native_ret s \<and> ncalls sh = ncalls s
            \<and> wait_results sh = wait_results s
            \<and> fst (pthreadMutexLock opt ins mu s) =
                (case fst (pthreadMutexLockHelper mu FOREVER sh) of
                   Return _ \<Rightarrow> Return 0 | Stop e \<Rightarrow> Stop e)"
proof (intro exI conjI)
  let ?sh = "(getTurn s)\<lparr>errno := error (getTurn s)\<rparr>"
  show "native_ret ?sh = native_ret s" "ncalls ?sh = ncalls s"
    "wait_results ?sh = wait_results s"
    by (simp_all add: getTurn_def sched_op_def)
  show "fst (pthreadMutexLock opt ins mu s) =
      (case fst (pthreadMutexLockHelper mu FOREVER ?sh) of
         Return _ \<Rightarrow> Return 0 | Stop e \<Rightarrow> Stop e)"
    using assms
    by (auto simp: pthreadMutexLock_def SCHED_GET_TURN_def sched_timer_start_def seq_def
        split: prod.splits outcome.splits)
qed

lemma relTimeToTurn_returns:
  assumes "launch_idle_thread opt" "0 < nanosec_per_turn opt"
  shows "\<exists>n. relTimeToTurn opt (Some rt) s = (Return n, s)"
  using assms by (simp add: relTimeToTurn_def time2turn_def seq_def Let_def)

lemma pthreadMutexTimedLock_unfold:
  assumes "\<not> (enforce_non_det_annotations opt \<and> inNonDet s)"
    and "launch_idle_thread opt" "0 < nanosec_per_turn opt"
  shows "\<exists>sh t. native_ret sh = native_ret s \<and> ncalls sh = ncalls s
            \<and> wait_results sh = wait_results s
            \<and> fst (pthreadMutexTimedLock opt ins mu (Some a) s) =
                fst (pthreadMutexLockHelper mu t sh)
            \<and> ncalls (snd (pthreadMutexTimedLock opt ins mu (Some a) s)) =
                ncalls (snd (pthreadMutexLockHelper mu t sh))"
proof -
  obtain cur s1 where b: "base_or_clock WarnMutexTimedLock s = (cur, s1)"
    by (cases "base_or_clock WarnMutexTimedLock s")
  have f1: "native_ret s1 = native_ret s" "ncalls s1 = ncalls s"
    "wait_results s1 = wait_results s" "inNonDet s1 = inNonDet s"
    using b by (auto simp: base_or_clock_def clock_gettime_def warn_def split: if_splits)
  let ?s2 = "getTurn s1"
  obtain n where n: "relTimeToTurn opt (Some (time_diff cur a)) ?s2 = (Return n, ?s2)"
    using relTimeToTurn_returns [OF assms(2,3)] by blast
  let ?sh = "?s2\<lparr>errno := error ?s2\<rparr>"
  let ?t = "getTurnCount ?s2 + word_of_int n"
  have "native_ret ?sh = native_ret s \<and> ncalls ?sh = ncalls s
      \<and> wait_results ?sh = wait_results s"
    using f1 by (simp add: getTurn_def sched_op_def)
  moreover have "fst (pthreadMutexTimedLock opt ins mu (Some a) s) =
                fst (pthreadMutexLockHelper mu ?t ?sh)
            \<and> ncalls (snd (pthreadMutexTimedLock opt ins mu (Some a) s)) =
                ncalls (snd (pthreadMutexLockHelper mu ?t ?sh))"
    using assms(1) b f1 n
    by (auto simp: pthreadMutexTimedLock_def SCHED_GET_TURN_def sched_timer_start_def seq_def
        Let_def SCHED_PUT_TURN_def sched_timer_end_def putTurn_def sched_op_def
        incTurnCount_def logSync_def
        split: prod.splits outcome.splits)
  ultimately show ?thesis by blast
qed

lemma sem_loop_outcomes:
  "fst (semTimedWait_loop sem t s) \<in>
      {Return (0, 0), Return (- 1, ETIMEDOUT), Stop AssertFail, Stop Blocked}
   \<and> (fst (semTimedWait_loop sem t s) = Return (- 1, ETIMEDOUT) \<longrightarrow>
        error (snd (semTimedWait_loop sem t s)) = ETIMEDOUT)"
proof (induction sem t s rule: semTimedWait_loop.induct)
  case (1 sem timeout s)
  show ?case
    using 1
    by (subst (1 2 3) semTimedWait_loop.simps)
       (auto split: if_splits list.splits prod.splits option.splits)
qed

lemma sem_step:
  assumes "native_ret s (ncalls s) \<noteq> 0" and "native_errno s (ncalls s) = Some EAGAIN"
    and "wait_results s = w # ws" and "w \<noteq> ETIMEDOUT"
  shows "\<exists>s2. semTimedWait_loop sem t s = semTimedWait_loop sem t s2
           \<and> wait_results s2 = ws \<and> native_ret s2 = native_ret s
           \<and> native_errno s2 = native_errno s \<and> ncalls s2 = ncalls s + 1"
proof (intro exI conjI)
  let ?s2 = "snd (wait sem t (snd (native SemTryWait sem s)))"
  show "semTimedWait_loop sem t s = semTimedWait_loop sem t ?s2"
    using assms
    by (simp add: semTimedWait_loop.simps [of sem t s] native_def wait_def sched_op_def Let_def)
  show "wait_results ?s2 = ws" "native_ret ?s2 = native_ret s"
    "native_errno ?s2 = native_errno s" "ncalls ?s2 = ncalls s + 1"
    using assms by (simp_all add: native_def wait_def sched_op_def Let_def)
qed

lemma sem_timeout:
  "wait_results s = ws @ ETIMEDOUT # rest \<Longrightarrow> ETIMEDOUT \<notin> set ws \<Longrightarrow>
   (\<forall>j\<le>length ws. native_ret s (ncalls s + j) \<noteq> 0
        \<and> native_errno s (ncalls s + j) = Some EAGAIN) \<Longrightarrow>
   fst (semTimedWait_loop sem t s) = Return (- 1, ETIMEDOUT)"
proof (induction ws arbitrary: s)
  case Nil
  then show ?case
    by (simp add: semTimedWait_loop.simps [of sem t s] native_def wait_def sched_op_def Let_def)
next
  case (Cons w ws)
  have e: "native_ret s (ncalls s) \<noteq> 0" "native_errno s (ncalls s) = Some EAGAIN"
    using Cons.prems(3) by (auto dest: spec [of _ 0])
  from sem_step [OF e, of w "ws @ ETIMEDOUT # rest" sem t] Cons.prems
  obtain s2 where s2: "semTimedWait_loop sem t s = semTimedWait_loop sem t s2"
    "wait_results s2 = ws @ ETIMEDOUT # rest" "native_ret s2 = native_ret s"
    "native_errno s2 = native_errno s" "ncalls s2 = ncalls s + 1" by auto
  have c: "\<forall>j\<le>length ws. native_ret s2 (ncalls s2 + j) \<noteq> 0
      \<and> native_errno s2 (ncalls s2 + j) = Some EAGAIN"
    using Cons.prems(3) s2 by auto
  have d: "ETIMEDOUT \<notin> set ws" using Cons.prems by simp
  show ?case using Cons.IH [OF s2(2) d c] s2 by simp
qed

lemma sem_ok:
  "wait_results s = ws @ rest \<Longrightarrow> ETIMEDOUT \<notin> set ws \<Longrightarrow>
   (\<forall>j<length ws. native_ret s (ncalls s + j) \<noteq> 0
        \<and> native_errno s (ncalls s + j) = Some EAGAIN) \<Longrightarrow>
   native_ret s (ncalls s + length ws) = 0 \<Longrightarrow>
   fst (semTimedWait_loop sem t s) = Return (0, 0)
   \<and> ncalls (snd (semTimedWait_loop sem t s)) = ncalls s + length ws + 1"
proof (induction ws arbitrary: s)
  case Nil
  then show ?case
    by (simp add: semTimedWait_loop.simps [of sem t s] native_def wait_def sched_op_def Let_def)
next
  case (Cons w ws)
  have e: "native_ret s (ncalls s) \<noteq> 0" "native_errno s (ncalls s) = Some EAGAIN"
    using Cons.prems(3) by (auto dest: spec [of _ 0])
  from sem_step [OF e, of w "ws @ rest" sem t] Cons.prems
  obtain s2 where s2: "semTimedWait_loop sem t s = semTimedWait_loop sem t s2"
    "wait_results s2 = ws @ rest" "native_ret s2 = native_ret s"
    "native_errno s2 = native_errno s" "ncalls s2 = ncalls s + 1" by auto
  have c: "\<forall>j<length ws. native_ret s2 (ncalls s2 + j) \<noteq> 0
      \<and> native_errno s2 (ncalls s2 + j) = Some EAGAIN"
    using Cons.prems(3) s2 by auto
  have c': "native_ret s2 (ncalls s2 + length ws) = 0"
    using Cons.prems(4) s2 by auto
  have d: "ETIMEDOUT \<notin> set ws" using Cons.prems by simp
  show ?case using Cons.IH [OF s2(2) d c c'] s2 by simp
qed



lemma semTimedWait_unfold:
  assumes "\<not> (enforce_non_det_annotations opt \<and> inNonDet s)"
    and "launch_idle_thread opt" "0 < nanosec_per_turn opt"
  shows "\<exists>sh t. native_ret sh = native_ret s \<and> native_errno sh = native_errno s
            \<and> ncalls sh = ncalls s \<and> wait_results sh = wait_results s
            \<and> (\<forall>ret saved_err. fst (semTimedWait_loop sem t sh) = Return (ret, saved_err) \<longrightarrow>
                     fst (semTimedWait opt ins sem (Some a) s) = Return ret
                     \<and> errno (snd (semTimedWait opt ins sem (Some a) s)) = saved_err
                     \<and> error (snd (semTimedWait opt ins sem (Some a) s)) =
                         error (snd (semTimedWait_loop sem t sh))
                     \<and> ncalls (snd (semTimedWait opt ins sem (Some a) s)) =
                         ncalls (snd (semTimedWait_loop sem t sh)))
            \<and> (\<forall>e. fst (semTimedWait_loop sem t sh) = Stop e \<longrightarrow>
                     fst (semTimedWait opt ins sem (Some a) s) = Stop e)"
proof -
  obtain cur s1 where b: "base_or_clock WarnSemTimedWait s = (cur, s1)"
    by (cases "base_or_clock WarnSemTimedWait s")
  have f1: "native_ret s1 = native_ret s" "ncalls s1 = ncalls s"
    "wait_results s1 = wait_results s" "inNonDet s1 = inNonDet s"
    "native_errno s1 = native_errno s"
    using b by (auto simp: base_or_clock_def clock_gettime_def warn_def split: if_splits)
  let ?s2 = "getTurn s1"
  obtain n where n: "relTimeToTurn opt (Some (time_diff cur a)) ?s2 = (Return n, ?s2)"
    using relTimeToTurn_returns [OF assms(2,3)] by blast
  let ?t = "getTurnCount ?s2 + word_of_int n"
  obtain out s4 where l: "semTimedWait_loop sem ?t ?s2 = (out, s4)"
    by (cases "semTimedWait_loop sem ?t ?s2")
  have g: "SCHED_GET_TURN opt s1 = (Return (), ?s2)"
    using assms(1) f1 by (auto simp: SCHED_GET_TURN_def sched_timer_start_def)
  have w: "semTimedWait opt ins sem (Some a) s =
      (case out of
         Return (ret, saved_err) \<Rightarrow>
           (Return ret, (SCHED_PUT_TURN opt ins sem_timedwait [sem, u64 ret] s4)\<lparr>errno := saved_err\<rparr>)
       | Stop e \<Rightarrow> (Stop e, s4))"
    using assms(1) b g n l
    by (auto simp: semTimedWait_def seq_def Let_def split: outcome.splits prod.splits)
  have p: "\<And>r. error (SCHED_PUT_TURN opt ins sem_timedwait r s4) = error s4
      \<and> ncalls (SCHED_PUT_TURN opt ins sem_timedwait r s4) = ncalls s4"
    by (simp add: SCHED_PUT_TURN_def sched_timer_end_def putTurn_def sched_op_def
        incTurnCount_def logSync_def Let_def)
  have "native_ret ?s2 = native_ret s \<and> native_errno ?s2 = native_errno s
      \<and> ncalls ?s2 = ncalls s \<and> wait_results ?s2 = wait_results s"
    using f1 by (simp add: getTurn_def sched_op_def)
  moreover have "\<forall>ret saved_err. fst (semTimedWait_loop sem ?t ?s2) = Return (ret, saved_err) \<longrightarrow>
                     fst (semTimedWait opt ins sem (Some a) s) = Return ret
                     \<and> errno (snd (semTimedWait opt ins sem (Some a) s)) = saved_err
                     \<and> error (snd (semTimedWait opt ins sem (Some a) s)) =
                         error (snd (semTimedWait_loop sem ?t ?s2))
                     \<and> ncalls (snd (semTimedWait opt ins sem (Some a) s)) =
                         ncalls (snd (semTimedWait_loop sem ?t ?s2))"
    using l p by (simp add: w)
  moreover have "\<forall>e. fst (semTimedWait_loop sem ?t ?s2) = Stop e \<longrightarrow>
                     fst (semTimedWait opt ins sem (Some a) s) = Stop e"
    using l by (simp add: w)
  ultimately show ?thesis by blast
qed

subsection \<open>C2: the relative physical-to-logical conversion\<close>

lemma u64_id: "0 \<le> x \<Longrightarrow> x < 2 ^ 63 \<Longrightarrow> u64 x = nat x"
  by (simp add: u64_def)

lemma i32_id: "- (2 ^ 31) \<le> x \<Longrightarrow> x < 2 ^ 31 \<Longrightarrow> i32 x = x"
  by (simp add: i32_def)

text \<open>
  C2, as the code has it. Take a positive \<open>nanosec_per_turn\<close>, a relative time of
  \<open>ns \<ge> 0\<close> nanoseconds and a thread count with \<open>5 * nthread + 1 \<le> 1000000\<close>. With the
  idle thread launched \<^verbatim>\<open>relTimeToTurn\<close> returns \<open>ns div nanosec_per_turn\<close> clamped
  between \<open>5 * nthread + 1\<close> and 1000000: the result is never below \<open>5 * nthread + 1\<close>,
  never above 1000000, and 2 ms at 1000 ns per turn give \<open>max (5 * nthread + 1) 2000\<close>
  turns. Without the idle thread the conversion returns nothing: the process exits with
  status 1.
\<close>

theorem relTimeToTurn_clamp:
  assumes npt: "0 < nanosec_per_turn opt"
    and ns: "ns = tv_sec rt * 1000000000 + tv_nsec rt"
    and nonneg: "0 \<le> ns" and fits: "ns < 2 ^ 63"
    and threads: "0 \<le> nthread s" and lower: "5 * nthread s + 1 \<le> 1000000"
  shows "(launch_idle_thread opt \<longrightarrow>
            relTimeToTurn opt (Some rt) s =
              (Return (max (5 * nthread s + 1) (min (ns div int (nanosec_per_turn opt)) 1000000)),
               s)
          \<and> (\<exists>r. fst (relTimeToTurn opt (Some rt) s) = Return r \<and> 5 * nthread s + 1 \<le> r
                 \<and> r \<le> 1000000)
          \<and> (nanosec_per_turn opt = 1000 \<longrightarrow>
               relTimeToTurn opt (Some \<lparr>tv_sec = 0, tv_nsec = 2000000\<rparr>) s =
                 (Return (max (5 * nthread s + 1) 2000), s)))
       \<and> (\<not> launch_idle_thread opt \<longrightarrow>
            fst (relTimeToTurn opt (Some rt) s) = Stop (Exited 1))"
proof -
  let ?d = "nanosec_per_turn opt"
  have cast: "u64 (tv_sec rt * 1000000000 + tv_nsec rt) = nat ns"
    using ns nonneg fits by (simp add: u64_id)
  have quot: "int (nat ns div ?d) = ns div int ?d"
    using nonneg by (simp add: zdiv_int)
  have lb: "i32 (5 * nthread s + 1) = 5 * nthread s + 1"
    using threads lower by (intro i32_id) simp_all
  have main: "relTimeToTurn opt (Some rt) s =
      (Return (max (5 * nthread s + 1) (min (ns div int ?d) 1000000)), s)"
    if "launch_idle_thread opt"
    using that npt quot
    by (auto simp: relTimeToTurn_def time2turn_def seq_def Let_def cast lb MAX_REL_def
        max_def min_def)
  have ex: "nanosec_per_turn opt = 1000 \<longrightarrow>
      relTimeToTurn opt (Some \<lparr>tv_sec = 0, tv_nsec = 2000000\<rparr>) s =
        (Return (max (5 * nthread s + 1) 2000), s)"
    if "launch_idle_thread opt"
    using that
    by (auto simp: relTimeToTurn_def time2turn_def seq_def Let_def u64_def lb MAX_REL_def
        max_def)
  have exit: "fst (relTimeToTurn opt (Some rt) s) = Stop (Exited 1)"
    if "\<not> launch_idle_thread opt"
    using that by (simp add: relTimeToTurn_def time2turn_def seq_def Let_def)
  from main ex exit lower show ?thesis by (auto simp: max_def min_def)
qed

theorem relTimeToTurn_clamp_witness:
  "relTimeToTurn opts0 (Some \<lparr>tv_sec = 0, tv_nsec = 2000000\<rparr>) s0 = (Return 2000, s0)
   \<and> fst (relTimeToTurn (opts0\<lparr>launch_idle_thread := False\<rparr>)
          (Some \<lparr>tv_sec = 0, tv_nsec = 2000000\<rparr>) s0) = Stop (Exited 1)"
  using relTimeToTurn_clamp [of opts0 2000000 "\<lparr>tv_sec = 0, tv_nsec = 2000000\<rparr>" s0]
    relTimeToTurn_clamp [of "opts0\<lparr>launch_idle_thread := False\<rparr>" 2000000
      "\<lparr>tv_sec = 0, tv_nsec = 2000000\<rparr>" s0]
  by (simp add: opts0_def s0_def)

text \<open>
  C2 as stated fails: it promises a result for every relative time. With the option
  \<open>launch_idle_thread\<close> off, \<^verbatim>\<open>time2turn\<close> prints its warning and calls
  \<^verbatim>\<open>exit(1)\<close>: for a 2 ms interval, 2 threads and 1000 ns per turn the conversion
  returns no number of turns.
\<close>

theorem relTimeToTurn_exits_without_idle_thread:
  "relTimeToTurn (opts0\<lparr>launch_idle_thread := False\<rparr>)
      (Some \<lparr>tv_sec = 0, tv_nsec = 2000000\<rparr>) s0
     = (Stop (Exited 1), s0\<lparr>events := [EWarn WarnNoIdleThread]\<rparr>)
   \<and> (\<forall>r. fst (relTimeToTurn (opts0\<lparr>launch_idle_thread := False\<rparr>)
          (Some \<lparr>tv_sec = 0, tv_nsec = 2000000\<rparr>) s0) \<noteq> Return r)"
  by (simp add: relTimeToTurn_def time2turn_def seq_def Let_def u64_def MAX_REL_def
      opts0_def s0_def)

text \<open>
  Two inputs the theorem above leaves out. A negative interval (a deadline already past):
  the \<^verbatim>\<open>int64_t\<close> is converted to \<^verbatim>\<open>uint64_t\<close> on the call of
  \<^verbatim>\<open>time2turn\<close>, so the code waits the maximum, not the minimum that the comment in
  \<^verbatim>\<open>relTimeToTurn\<close> announces for a negative result. A thread count of 200000 or more:
  the lower bound, applied last, passes what \<^verbatim>\<open>time2turn\<close> calls the maximum number
  of turns to wait.
\<close>

lemma relTimeToTurn_negative_interval:
  "fst (relTimeToTurn opts0 (Some \<lparr>tv_sec = - 1, tv_nsec = 0\<rparr>) s0) = Return 1000000"
  by (simp add: relTimeToTurn_def time2turn_def seq_def Let_def u64_def i32_def MAX_REL_def
      opts0_def s0_def)

lemma relTimeToTurn_lower_bound_above_cap:
  "fst (relTimeToTurn opts0 (Some \<lparr>tv_sec = 0, tv_nsec = 2000000\<rparr>) (s0\<lparr>nthread := 200000\<rparr>))
     = Return 1000001"
  by (simp add: relTimeToTurn_def time2turn_def seq_def Let_def u64_def i32_def MAX_REL_def
      opts0_def s0_def)

subsection \<open>C10: what the lock wrapper returns\<close>

text \<open>
  C10. In a deterministic region \<^verbatim>\<open>pthreadMutexLock\<close> ends in one of three ways: it
  returns 0, an assertion fails, or the thread stays parked in the scheduler's wait. When
  every native trylock attempt answers 0 or \<open>EBUSY\<close> no assertion fails; when the attempts
  answer \<open>EBUSY\<close> \<open>n\<close> times and then 0, and the waits in between are answered, the wrapper
  returns 0 (also when a wait is answered \<open>ETIMEDOUT\<close>: the helper's result is dropped);
  an attempt that fails with any other code trips the assertion. No nonzero value is ever
  returned.
\<close>

theorem pthreadMutexLock_returns_0:
  assumes det: "\<not> (enforce_non_det_annotations opt \<and> inNonDet s)"
  shows "fst (pthreadMutexLock opt ins mu s) \<in> {Return 0, Stop AssertFail, Stop Blocked}
    \<and> ((\<forall>k\<ge>ncalls s. native_ret s k = 0 \<or> native_ret s k = EBUSY) \<longrightarrow>
          fst (pthreadMutexLock opt ins mu s) \<in> {Return 0, Stop Blocked})
    \<and> ((\<forall>j<n. native_ret s (ncalls s + j) = EBUSY) \<and> native_ret s (ncalls s + n) = 0
          \<and> n \<le> length (wait_results s) \<longrightarrow>
          fst (pthreadMutexLock opt ins mu s) = Return 0)
    \<and> (wait_results s = ws @ rest \<and> ETIMEDOUT \<notin> set ws
          \<and> (\<forall>j<length ws. native_ret s (ncalls s + j) = EBUSY)
          \<and> native_ret s (ncalls s + length ws) \<noteq> 0
          \<and> native_ret s (ncalls s + length ws) \<noteq> EBUSY \<longrightarrow>
          fst (pthreadMutexLock opt ins mu s) = Stop AssertFail)"
proof -
  from pthreadMutexLock_unfold [OF det, of ins mu]
  obtain sh where sh: "native_ret sh = native_ret s" "ncalls sh = ncalls s"
    "wait_results sh = wait_results s"
    and w: "fst (pthreadMutexLock opt ins mu s) =
            (case fst (pthreadMutexLockHelper mu FOREVER sh) of
               Return _ \<Rightarrow> Return 0 | Stop e \<Rightarrow> Stop e)"
    by blast
  have 1: "fst (pthreadMutexLock opt ins mu s) \<in> {Return 0, Stop AssertFail, Stop Blocked}"
    using helper_outcomes [of mu FOREVER sh] by (auto simp: w)
  have 2: "fst (pthreadMutexLock opt ins mu s) \<in> {Return 0, Stop Blocked}"
    if "\<forall>k\<ge>ncalls s. native_ret s k = 0 \<or> native_ret s k = EBUSY"
    using helper_outcomes [of mu FOREVER sh] helper_no_assert [of sh mu FOREVER] that sh
    by (auto simp: w)
  have 3: "fst (pthreadMutexLock opt ins mu s) = Return 0"
    if "\<forall>j<n. native_ret s (ncalls s + j) = EBUSY" "native_ret s (ncalls s + n) = 0"
      "n \<le> length (wait_results s)"
    using helper_returns [of n sh mu FOREVER] that sh by (auto simp: w)
  have 4: "fst (pthreadMutexLock opt ins mu s) = Stop AssertFail"
    if "wait_results s = ws @ rest" "ETIMEDOUT \<notin> set ws"
      "\<forall>j<length ws. native_ret s (ncalls s + j) = EBUSY"
      "native_ret s (ncalls s + length ws) \<noteq> 0" "native_ret s (ncalls s + length ws) \<noteq> EBUSY"
    using helper_assert [of sh ws rest mu FOREVER] that sh by (simp add: w)
  from 1 2 3 4 show ?thesis by blast
qed

theorem pthreadMutexLock_returns_0_witness:
  "fst (pthreadMutexLock opts0 7 100 sA) = Return 0
   \<and> fst (pthreadMutexLock opts0 7 100 sB) = Stop AssertFail"
  using pthreadMutexLock_returns_0 [of opts0 sA 7 100 2 "[]" "[]"]
    pthreadMutexLock_returns_0 [of opts0 sB 7 100 0 "[0]" "[]"]
  by (simp add: opts0_def sA_def sB_def s0_def EBUSY_def ETIMEDOUT_def)

subsection \<open>C4: a timed-out wait surfaces as a timeout\<close>

text \<open>
  C4. A timed wrapper is called in a deterministic region with an absolute deadline, the
  idle thread launched and a positive \<open>nanosec_per_turn\<close>. The native try-operation fails
  (\<open>EBUSY\<close> for the mutex; nonzero with errno \<open>EAGAIN\<close> for the semaphore) and the
  scheduler's waits are answered by \<open>ws\<close>, none of them a timeout.
  If the next wait is answered \<open>ETIMEDOUT\<close>, \<^verbatim>\<open>pthreadMutexTimedLock\<close> returns
  \<open>ETIMEDOUT\<close>, and \<^verbatim>\<open>semTimedWait\<close> returns \<open>- 1\<close> with the caller's error cell and
  errno set to \<open>ETIMEDOUT\<close>. If instead the try-operation after the last of these waits
  succeeds, the wrapper returns 0: it has made one try-operation per answered wait and one
  more (\<open>ncalls\<close> counts them), and reports no timeout.
\<close>

theorem timed_wait_timeout_surfaces:
  assumes det: "\<not> (enforce_non_det_annotations opt \<and> inNonDet s)"
    and idle: "launch_idle_thread opt" and npt: "0 < nanosec_per_turn opt"
  shows "(wait_results s = ws @ ETIMEDOUT # rest \<and> ETIMEDOUT \<notin> set ws
            \<and> (\<forall>j\<le>length ws. native_ret s (ncalls s + j) = EBUSY) \<longrightarrow>
          fst (pthreadMutexTimedLock opt ins mu (Some a) s) = Return ETIMEDOUT)
    \<and> (wait_results s = ws @ ETIMEDOUT # rest \<and> ETIMEDOUT \<notin> set ws
            \<and> (\<forall>j\<le>length ws. native_ret s (ncalls s + j) \<noteq> 0
                   \<and> native_errno s (ncalls s + j) = Some EAGAIN) \<longrightarrow>
          fst (semTimedWait opt ins sem (Some a) s) = Return (- 1)
          \<and> error (snd (semTimedWait opt ins sem (Some a) s)) = ETIMEDOUT
          \<and> errno (snd (semTimedWait opt ins sem (Some a) s)) = ETIMEDOUT)
    \<and> (wait_results s = ws @ rest \<and> ETIMEDOUT \<notin> set ws
            \<and> (\<forall>j<length ws. native_ret s (ncalls s + j) = EBUSY)
            \<and> native_ret s (ncalls s + length ws) = 0 \<longrightarrow>
          fst (pthreadMutexTimedLock opt ins mu (Some a) s) = Return 0
          \<and> ncalls (snd (pthreadMutexTimedLock opt ins mu (Some a) s)) =
              ncalls s + length ws + 1)
    \<and> (wait_results s = ws @ rest \<and> ETIMEDOUT \<notin> set ws
            \<and> (\<forall>j<length ws. native_ret s (ncalls s + j) \<noteq> 0
                   \<and> native_errno s (ncalls s + j) = Some EAGAIN)
            \<and> native_ret s (ncalls s + length ws) = 0 \<longrightarrow>
          fst (semTimedWait opt ins sem (Some a) s) = Return 0
          \<and> errno (snd (semTimedWait opt ins sem (Some a) s)) = 0
          \<and> ncalls (snd (semTimedWait opt ins sem (Some a) s)) = ncalls s + length ws + 1)"
proof -
  from pthreadMutexTimedLock_unfold [OF det idle npt, of ins mu a]
  obtain sh t where sh: "native_ret sh = native_ret s" "ncalls sh = ncalls s"
    "wait_results sh = wait_results s"
    and w: "fst (pthreadMutexTimedLock opt ins mu (Some a) s) =
              fst (pthreadMutexLockHelper mu t sh)"
      "ncalls (snd (pthreadMutexTimedLock opt ins mu (Some a) s)) =
         ncalls (snd (pthreadMutexLockHelper mu t sh))"
    by blast
  from semTimedWait_unfold [OF det idle npt, of sem ins a]
  obtain sh' t' where sh': "native_ret sh' = native_ret s" "native_errno sh' = native_errno s"
    "ncalls sh' = ncalls s" "wait_results sh' = wait_results s"
    and w': "\<And>ret saved_err. fst (semTimedWait_loop sem t' sh') = Return (ret, saved_err) \<Longrightarrow>
                fst (semTimedWait opt ins sem (Some a) s) = Return ret
                \<and> errno (snd (semTimedWait opt ins sem (Some a) s)) = saved_err
                \<and> error (snd (semTimedWait opt ins sem (Some a) s)) =
                    error (snd (semTimedWait_loop sem t' sh'))
                \<and> ncalls (snd (semTimedWait opt ins sem (Some a) s)) =
                    ncalls (snd (semTimedWait_loop sem t' sh'))"
    by blast
  have 1: "fst (pthreadMutexTimedLock opt ins mu (Some a) s) = Return ETIMEDOUT"
    if "wait_results s = ws @ ETIMEDOUT # rest" "ETIMEDOUT \<notin> set ws"
      "\<forall>j\<le>length ws. native_ret s (ncalls s + j) = EBUSY"
    using helper_timeout [of sh ws rest mu t] that sh by (simp add: w)
  have 2: "fst (semTimedWait opt ins sem (Some a) s) = Return (- 1)
          \<and> error (snd (semTimedWait opt ins sem (Some a) s)) = ETIMEDOUT
          \<and> errno (snd (semTimedWait opt ins sem (Some a) s)) = ETIMEDOUT"
    if "wait_results s = ws @ ETIMEDOUT # rest" "ETIMEDOUT \<notin> set ws"
      "\<forall>j\<le>length ws. native_ret s (ncalls s + j) \<noteq> 0
           \<and> native_errno s (ncalls s + j) = Some EAGAIN"
  proof -
    have l: "fst (semTimedWait_loop sem t' sh') = Return (- 1, ETIMEDOUT)"
      using sem_timeout [of sh' ws rest sem t'] that sh' by simp
    with sem_loop_outcomes [of sem t' sh']
    have "error (snd (semTimedWait_loop sem t' sh')) = ETIMEDOUT" by simp
    with w' [OF l] show ?thesis by simp
  qed
  have 3: "fst (pthreadMutexTimedLock opt ins mu (Some a) s) = Return 0
          \<and> ncalls (snd (pthreadMutexTimedLock opt ins mu (Some a) s)) =
              ncalls s + length ws + 1"
    if "wait_results s = ws @ rest" "ETIMEDOUT \<notin> set ws"
      "\<forall>j<length ws. native_ret s (ncalls s + j) = EBUSY"
      "native_ret s (ncalls s + length ws) = 0"
    using helper_ok [of sh ws rest mu t] that sh by (simp add: w)
  have 4: "fst (semTimedWait opt ins sem (Some a) s) = Return 0
          \<and> errno (snd (semTimedWait opt ins sem (Some a) s)) = 0
          \<and> ncalls (snd (semTimedWait opt ins sem (Some a) s)) = ncalls s + length ws + 1"
    if "wait_results s = ws @ rest" "ETIMEDOUT \<notin> set ws"
      "\<forall>j<length ws. native_ret s (ncalls s + j) \<noteq> 0
           \<and> native_errno s (ncalls s + j) = Some EAGAIN"
      "native_ret s (ncalls s + length ws) = 0"
  proof -
    have l: "fst (semTimedWait_loop sem t' sh') = Return (0, 0)
        \<and> ncalls (snd (semTimedWait_loop sem t' sh')) = ncalls sh' + length ws + 1"
      using sem_ok [of sh' ws rest sem t'] that sh' by simp
    with w' [of 0 0] sh' show ?thesis by simp
  qed
  from 1 2 3 4 show ?thesis by blast
qed

theorem timed_wait_timeout_surfaces_witness:
  "fst (pthreadMutexTimedLock opts0 7 100 (Some abs1) sT) = Return 110
   \<and> fst (semTimedWait opts0 7 200 (Some abs1) sSemT) = Return (- 1)
   \<and> error (snd (semTimedWait opts0 7 200 (Some abs1) sSemT)) = 110
   \<and> errno (snd (semTimedWait opts0 7 200 (Some abs1) sSemT)) = 110
   \<and> fst (pthreadMutexTimedLock opts0 7 100 (Some abs1) sA) = Return 0
   \<and> ncalls (snd (pthreadMutexTimedLock opts0 7 100 (Some abs1) sA)) = 3
   \<and> fst (semTimedWait opts0 7 200 (Some abs1) sSemOk) = Return 0
   \<and> ncalls (snd (semTimedWait opts0 7 200 (Some abs1) sSemOk)) = 2"
  using timed_wait_timeout_surfaces [of opts0 sT "[0]" "[]" 7 100 abs1 200]
    timed_wait_timeout_surfaces [of opts0 sSemT "[0]" "[]" 7 100 abs1 200]
    timed_wait_timeout_surfaces [of opts0 sA "[0, 0]" "[]" 7 100 abs1 200]
    timed_wait_timeout_surfaces [of opts0 sSemOk "[0]" "[]" 7 100 abs1 200]
  by (simp add: opts0_def sT_def sSemT_def sSemOk_def sA_def s0_def EBUSY_def ETIMEDOUT_def
      EAGAIN_def)

lemma det_False: "\<not> (a \<and> b) \<Longrightarrow> (a \<and> b) = False"
  by simp

subsection \<open>C7: the release signals while it holds the turn\<close>

lemma release_call_trace:
  assumes det: "\<not> (enforce_non_det_annotations opt \<and> inNonDet s)"
    and tr: "tr = new_events s (snd (pthreadMutexUnlock opt ins mu s))"
    and tr': "tr' = new_events s (snd (semPost opt ins sem s))"
  shows "(native_ret s (ncalls s) = 0 \<longrightarrow>
            fst (pthreadMutexUnlock opt ins mu s) = Return 0
          \<and> tr = [EGetTurn, ENative MutexUnlock mu, ESignal mu False, EIncTurnCount, EPutTurn False]
          \<and> occurs_before (ENative MutexUnlock mu) (ESignal mu False) tr
          \<and> occurs_before (ESignal mu False) (EPutTurn False) tr
          \<and> (\<forall>c all. \<not> occurs_before (EPutTurn False) (ESignal c all) tr)
          \<and> fst (semPost opt ins sem s) = Return 0
          \<and> tr' = [EGetTurn, ENative SemPost sem, ESignal sem False, EIncTurnCount, EPutTurn False]
          \<and> occurs_before (ENative SemPost sem) (ESignal sem False) tr'
          \<and> occurs_before (ESignal sem False) (EPutTurn False) tr'
          \<and> (\<forall>c all. \<not> occurs_before (EPutTurn False) (ESignal c all) tr'))
     \<and> (native_ret s (ncalls s) \<noteq> 0 \<longrightarrow>
            fst (pthreadMutexUnlock opt ins mu s) = Stop AssertFail
          \<and> tr = [EGetTurn, ENative MutexUnlock mu]
          \<and> fst (semPost opt ins sem s) = Stop AssertFail
          \<and> tr' = [EGetTurn, ENative SemPost sem])"
proof -
  note d = det_False [OF det]
  have u0: "native_ret s (ncalls s) = 0 \<Longrightarrow>
      fst (pthreadMutexUnlock opt ins mu s) = Return 0
      \<and> tr = [EGetTurn, ENative MutexUnlock mu, ESignal mu False, EIncTurnCount, EPutTurn False]"
    unfolding tr new_events_def
    by (simp add: pthreadMutexUnlock_def d seq_def native_def Let_def turn_defs)
  have p0: "native_ret s (ncalls s) = 0 \<Longrightarrow>
      fst (semPost opt ins sem s) = Return 0
      \<and> tr' = [EGetTurn, ENative SemPost sem, ESignal sem False, EIncTurnCount, EPutTurn False]"
    unfolding tr' new_events_def
    by (simp add: semPost_def d seq_def native_def Let_def turn_defs)
  have u1: "native_ret s (ncalls s) \<noteq> 0 \<Longrightarrow>
      fst (pthreadMutexUnlock opt ins mu s) = Stop AssertFail
      \<and> tr = [EGetTurn, ENative MutexUnlock mu]"
    unfolding tr new_events_def
    by (simp add: pthreadMutexUnlock_def d seq_def native_def Let_def turn_defs)
  have p1: "native_ret s (ncalls s) \<noteq> 0 \<Longrightarrow>
      fst (semPost opt ins sem s) = Stop AssertFail
      \<and> tr' = [EGetTurn, ENative SemPost sem]"
    unfolding tr' new_events_def
    by (simp add: semPost_def d seq_def native_def Let_def turn_defs)
  have o: "\<And>x. occurs_before (ENative MutexUnlock x) (ESignal x False)
          [EGetTurn, ENative MutexUnlock x, ESignal x False, EIncTurnCount, EPutTurn False]
        \<and> occurs_before (ENative SemPost x) (ESignal x False)
          [EGetTurn, ENative SemPost x, ESignal x False, EIncTurnCount, EPutTurn False]"
    "\<And>x e. occurs_before (ESignal x False) (EPutTurn False)
          [EGetTurn, e, ESignal x False, EIncTurnCount, EPutTurn False]"
    "\<And>x e c all. \<not> occurs_before (EPutTurn False) (ESignal c all)
          [EGetTurn, ENative e x, ESignal x False, EIncTurnCount, EPutTurn False]"
    by (simp_all add: occurs_before_def)
  show ?thesis using u0 p0 u1 p1 o by auto
qed

lemma merges_cons_cases:
  assumes "g \<in> set (merges (x # xs) (y # ys))"
  obtains g' where "g = x # g'" "g' \<in> set (merges xs (y # ys))"
    | g' where "g = y # g'" "g' \<in> set (merges (x # xs) ys)"
  using assms by (auto simp: merges.simps(3))

lemma append_in_merges: "xs @ ys \<in> set (merges xs ys)"
  by (induction xs ys rule: merges.induct) (auto simp: merges.simps)

lemma turn_ok_other:
  "e \<noteq> EGetTurn \<Longrightarrow> (\<forall>b. e \<noteq> EPutTurn b) \<Longrightarrow> turn_ok h ((t, e) # g) = turn_ok h g"
  by (cases e) auto

lemma holder_finishes_left:
  assumes "t1 \<noteq> t2" and "\<forall>e\<in>set xs. e \<noteq> EGetTurn \<and> (\<forall>b. e \<noteq> EPutTurn b)"
    and "g \<in> set (merges (map (Pair t1) (xs @ [EPutTurn b])) ((t2, EGetTurn) # ys))"
    and "turn_ok (Some t1) g"
  shows "g = map (Pair t1) (xs @ [EPutTurn b]) @ (t2, EGetTurn) # ys"
  using assms(2-)
proof (induction xs arbitrary: g)
  case Nil
  from Nil.prems(2) have "g \<in> set (merges ((t1, EPutTurn b) # []) ((t2, EGetTurn) # ys))"
    by simp
  then show ?case
  proof (cases rule: merges_cons_cases)
    case (1 g')
    then show ?thesis by (simp add: merges.simps(1))
  next
    case (2 g')
    with Nil.prems(3) show ?thesis by simp
  qed
next
  case (Cons x xs)
  from Cons.prems(2)
  have "g \<in> set (merges ((t1, x) # map (Pair t1) (xs @ [EPutTurn b])) ((t2, EGetTurn) # ys))"
    by simp
  then show ?case
  proof (cases rule: merges_cons_cases)
    case (1 g')
    have "turn_ok (Some t1) g'"
      using Cons.prems(1,3) 1(1) by (simp add: turn_ok_other)
    with Cons.IH [of g'] Cons.prems(1) 1 show ?thesis by simp
  next
    case (2 g')
    with Cons.prems(3) show ?thesis by simp
  qed
qed

lemma holder_finishes_right:
  assumes "t1 \<noteq> t2" and "\<forall>e\<in>set xs. e \<noteq> EGetTurn \<and> (\<forall>b. e \<noteq> EPutTurn b)"
    and "g \<in> set (merges ((t1, EGetTurn) # ys) (map (Pair t2) (xs @ [EPutTurn b])))"
    and "turn_ok (Some t2) g"
  shows "g = map (Pair t2) (xs @ [EPutTurn b]) @ (t1, EGetTurn) # ys"
  using assms(2-)
proof (induction xs arbitrary: g)
  case Nil
  from Nil.prems(2) have "g \<in> set (merges ((t1, EGetTurn) # ys) ((t2, EPutTurn b) # []))"
    by simp
  then show ?case
  proof (cases rule: merges_cons_cases)
    case (1 g')
    with Nil.prems(3) show ?thesis by simp
  next
    case (2 g')
    then show ?thesis by (simp add: merges.simps(2))
  qed
next
  case (Cons x xs)
  from Cons.prems(2)
  have "g \<in> set (merges ((t1, EGetTurn) # ys) ((t2, x) # map (Pair t2) (xs @ [EPutTurn b])))"
    by simp
  then show ?case
  proof (cases rule: merges_cons_cases)
    case (1 g')
    with Cons.prems(3) show ?thesis by simp
  next
    case (2 g')
    have "turn_ok (Some t2) g'"
      using Cons.prems(1,3) 2(1) by (simp add: turn_ok_other)
    with Cons.IH [of g'] Cons.prems(1) 2 show ?thesis by simp
  qed
qed

lemma release_merge:
  assumes ne: "t1 \<noteq> t2"
    and g: "g \<in> set (merges (map (Pair t1) (release_trace op1 x1))
                      (map (Pair t2) (release_trace op2 x2)))"
    and ok: "turn_ok None g"
  shows "g = map (Pair t1) (release_trace op1 x1) @ map (Pair t2) (release_trace op2 x2)
       \<or> g = map (Pair t2) (release_trace op2 x2) @ map (Pair t1) (release_trace op1 x1)"
proof -
  let ?m1 = "[ENative op1 x1, ESignal x1 False, EIncTurnCount]"
  let ?m2 = "[ENative op2 x2, ESignal x2 False, EIncTurnCount]"
  let ?r1 = "map (Pair t1) (?m1 @ [EPutTurn False])"
  let ?r2 = "map (Pair t2) (?m2 @ [EPutTurn False])"
  have r1: "map (Pair t1) (release_trace op1 x1) = (t1, EGetTurn) # ?r1"
    and r2: "map (Pair t2) (release_trace op2 x2) = (t2, EGetTurn) # ?r2"
    by (simp_all add: release_trace_def)
  have m: "\<forall>e\<in>set ?m1. e \<noteq> EGetTurn \<and> (\<forall>b. e \<noteq> EPutTurn b)"
    "\<forall>e\<in>set ?m2. e \<noteq> EGetTurn \<and> (\<forall>b. e \<noteq> EPutTurn b)"
    by simp_all
  from g have "g \<in> set (merges ((t1, EGetTurn) # ?r1) ((t2, EGetTurn) # ?r2))"
    unfolding r1 r2 .
  then show ?thesis
  proof (cases rule: merges_cons_cases)
    case (1 g')
    have "turn_ok (Some t1) g'" using ok 1(1) by simp
    from holder_finishes_left [OF ne m(1) 1(2) this] 1(1) show ?thesis
      unfolding r1 r2 by simp
  next
    case (2 g')
    have "turn_ok (Some t2) g'" using ok 2(1) by simp
    from holder_finishes_right [OF ne m(2) 2(2) this] 2(1) show ?thesis
      unfolding r1 r2 by simp
  qed
qed

lemma release_concat_follow:
  assumes "t1 \<noteq> t2"
  shows "wakes_follow_turns t1 x1 t2 x2
           (map (Pair t1) (release_trace op1 x1) @ map (Pair t2) (release_trace op2 x2))
       \<and> wakes_follow_turns t1 x1 t2 x2
           (map (Pair t2) (release_trace op2 x2) @ map (Pair t1) (release_trace op1 x1))"
  using assms by (auto simp: wakes_follow_turns_def occurs_before_def release_trace_def)

lemma releases_follow_turns:
  assumes "t1 \<noteq> t2"
    and "g \<in> set (merges (map (Pair t1) (release_trace op1 x1))
                      (map (Pair t2) (release_trace op2 x2)))"
    and "turn_ok None g"
  shows "wakes_follow_turns t1 x1 t2 x2 g"
  using release_merge [OF assms] release_concat_follow [OF assms(1)]
  by blast


lemma merges_left_first: "ys \<noteq> [] \<Longrightarrow> g \<in> set (merges xs ys) \<Longrightarrow> x # g \<in> set (merges (x # xs) ys)"
  by (cases ys) (auto simp: merges.simps(3))

lemma split_in_merges: "xs1 @ ys @ xs2 \<in> set (merges (xs1 @ xs2) ys)"
proof (cases "ys = []")
  case True
  then show ?thesis by (cases "xs1 @ xs2") (simp_all add: merges.simps)
next
  case False
  have base: "ys @ xs2 \<in> set (merges xs2 ys)"
    by (induction xs2 ys rule: merges.induct) (auto simp: merges.simps)
  show ?thesis
    by (induction xs1) (simp_all add: base merges_left_first [OF False])
qed

text \<open>
  C7. In a deterministic region \<^verbatim>\<open>pthreadMutexUnlock\<close> (and likewise
  \<^verbatim>\<open>semPost\<close>) performs, in this order: getTurn, the native release, the scheduler's
  signal on the object's channel (one waiter), the increment of the turn counter, putTurn.
  The signal stands after the native release and before putTurn, and no signal stands after
  putTurn. When the native release fails, the assertion aborts the call before any signal
  and before putTurn.

  Hence two releases by two threads cannot reorder their wake effects: in every
  interleaving of the two calls that respects the turn, the two signals stand in the order
  in which the two threads released the turn (two unlocks, an unlock and a post, or two
  posts, on any channels).
\<close>

theorem release_signals_before_putTurn:
  assumes det: "\<not> (enforce_non_det_annotations opt \<and> inNonDet s)"
    and det2: "\<not> (enforce_non_det_annotations opt \<and> inNonDet s2)"
    and tr: "tr = new_events s (snd (pthreadMutexUnlock opt ins mu s))"
    and tr': "tr' = new_events s (snd (semPost opt ins sem s))"
    and u2: "u2 = new_events s2 (snd (pthreadMutexUnlock opt ins2 mu2 s2))"
    and p2: "p2 = new_events s2 (snd (semPost opt ins2 sem2 s2))"
  shows "(native_ret s (ncalls s) = 0 \<longrightarrow>
            fst (pthreadMutexUnlock opt ins mu s) = Return 0
          \<and> tr = [EGetTurn, ENative MutexUnlock mu, ESignal mu False, EIncTurnCount, EPutTurn False]
          \<and> occurs_before (ENative MutexUnlock mu) (ESignal mu False) tr
          \<and> occurs_before (ESignal mu False) (EPutTurn False) tr
          \<and> (\<forall>c all. \<not> occurs_before (EPutTurn False) (ESignal c all) tr)
          \<and> fst (semPost opt ins sem s) = Return 0
          \<and> tr' = [EGetTurn, ENative SemPost sem, ESignal sem False, EIncTurnCount, EPutTurn False]
          \<and> occurs_before (ENative SemPost sem) (ESignal sem False) tr'
          \<and> occurs_before (ESignal sem False) (EPutTurn False) tr'
          \<and> (\<forall>c all. \<not> occurs_before (EPutTurn False) (ESignal c all) tr'))
     \<and> (native_ret s (ncalls s) \<noteq> 0 \<longrightarrow>
            fst (pthreadMutexUnlock opt ins mu s) = Stop AssertFail
          \<and> tr = [EGetTurn, ENative MutexUnlock mu]
          \<and> fst (semPost opt ins sem s) = Stop AssertFail
          \<and> tr' = [EGetTurn, ENative SemPost sem])
     \<and> (t1 \<noteq> t2 \<and> native_ret s (ncalls s) = 0 \<and> native_ret s2 (ncalls s2) = 0 \<longrightarrow>
            (\<forall>g\<in>set (merges (map (Pair t1) tr) (map (Pair t2) u2)).
                turn_ok None g \<longrightarrow> wakes_follow_turns t1 mu t2 mu2 g)
          \<and> (\<forall>g\<in>set (merges (map (Pair t1) tr) (map (Pair t2) p2)).
                turn_ok None g \<longrightarrow> wakes_follow_turns t1 mu t2 sem2 g)
          \<and> (\<forall>g\<in>set (merges (map (Pair t1) tr') (map (Pair t2) p2)).
                turn_ok None g \<longrightarrow> wakes_follow_turns t1 sem t2 sem2 g))"
proof -
  note one = release_call_trace [OF det tr tr']
  note two = release_call_trace [OF det2 u2 p2]
  have cross: "(\<forall>g\<in>set (merges (map (Pair t1) tr) (map (Pair t2) u2)).
                turn_ok None g \<longrightarrow> wakes_follow_turns t1 mu t2 mu2 g)
          \<and> (\<forall>g\<in>set (merges (map (Pair t1) tr) (map (Pair t2) p2)).
                turn_ok None g \<longrightarrow> wakes_follow_turns t1 mu t2 sem2 g)
          \<and> (\<forall>g\<in>set (merges (map (Pair t1) tr') (map (Pair t2) p2)).
                turn_ok None g \<longrightarrow> wakes_follow_turns t1 sem t2 sem2 g)"
    if ne: "t1 \<noteq> t2" and r: "native_ret s (ncalls s) = 0" "native_ret s2 (ncalls s2) = 0"
  proof -
    have t: "tr = release_trace MutexUnlock mu" "tr' = release_trace SemPost sem"
      "u2 = release_trace MutexUnlock mu2" "p2 = release_trace SemPost sem2"
      using one two r by (simp_all add: release_trace_def)
    show ?thesis
      unfolding t using releases_follow_turns [OF ne] by blast
  qed
  from one cross show ?thesis by blast
qed

theorem release_signals_before_putTurn_witness:
  "fst (pthreadMutexUnlock opts0 7 100 s0) = Return 0
   \<and> new_events s0 (snd (pthreadMutexUnlock opts0 7 100 s0)) =
       [EGetTurn, ENative MutexUnlock 100, ESignal 100 False, EIncTurnCount, EPutTurn False]
   \<and> fst (semPost opts0 7 200 s0) = Return 0
   \<and> new_events s0 (snd (semPost opts0 7 200 s0)) =
       [EGetTurn, ENative SemPost 200, ESignal 200 False, EIncTurnCount, EPutTurn False]
   \<and> fst (pthreadMutexUnlock opts0 7 100 (s0\<lparr>native_ret := (\<lambda>k. 1)\<rparr>)) = Stop AssertFail
   \<and> turn_ok None (map (Pair 2) (release_trace SemPost 300)
                    @ map (Pair 1) (release_trace MutexUnlock 100))
   \<and> wakes_follow_turns 1 100 2 300
        (map (Pair 2) (release_trace SemPost 300) @ map (Pair 1) (release_trace MutexUnlock 100))"
proof -
  let ?g = "map (Pair (2::nat)) (release_trace SemPost 300)
              @ map (Pair 1) (release_trace MutexUnlock 100)"
  have ok: "turn_ok None ?g" by (simp add: release_trace_def)
  have mem: "?g \<in> set (merges (map (Pair 1) (release_trace MutexUnlock 100))
                          (map (Pair 2) (release_trace SemPost 300)))"
    using split_in_merges [of "[]" "map (Pair 2) (release_trace SemPost 300)"
        "map (Pair (1::nat)) (release_trace MutexUnlock 100)"] by simp
  have c: "new_events s0 (snd (pthreadMutexUnlock opts0 7 100 s0)) = release_trace MutexUnlock 100"
    "new_events s0 (snd (semPost opts0 8 300 s0)) = release_trace SemPost 300"
    by (simp_all add: release_trace_def pthreadMutexUnlock_def semPost_def seq_def native_def
        Let_def turn_defs new_events_def opts0_def s0_def)
  from release_signals_before_putTurn [of opts0 s0 s0 _ 7 100 _ 200 _ 8 400 _ 300 1 2,
      OF _ _ refl refl refl refl]
    release_signals_before_putTurn [of opts0 "s0\<lparr>native_ret := (\<lambda>k. 1)\<rparr>" s0 _ 7 100 _ 200
      _ 8 400 _ 300 1 2, OF _ _ refl refl refl refl]
    ok mem
  show ?thesis
    by (simp add: c) (simp add: opts0_def s0_def)
qed

text \<open>
  The order matters: were the signal issued after putTurn, two releases could wake their
  waiters against the order of their turns.
\<close>

lemma late_signal_can_reorder:
  "\<exists>g\<in>set (merges (map (Pair 1) (late_release_trace MutexUnlock 100))
                  (map (Pair 2) (late_release_trace MutexUnlock 300))).
      turn_ok None g
    \<and> occurs_before (1, EPutTurn False) (2, EPutTurn False) g
    \<and> occurs_before (2, ESignal 300 False) (1, ESignal 100 False) g"
proof
  let ?a = "map (Pair (1::nat)) [EGetTurn, ENative MutexUnlock 100, EIncTurnCount, EPutTurn False]"
  let ?g = "?a @ map (Pair 2) (late_release_trace MutexUnlock 300) @ [(1, ESignal 100 False)]"
  show "?g \<in> set (merges (map (Pair 1) (late_release_trace MutexUnlock 100))
                  (map (Pair 2) (late_release_trace MutexUnlock 300)))"
    using split_in_merges [of ?a "map (Pair 2) (late_release_trace MutexUnlock 300)"
        "[(1, ESignal 100 False)]"]
    by (simp add: late_release_trace_def)
  show "turn_ok None ?g
    \<and> occurs_before (1, EPutTurn False) (2, EPutTurn False) ?g
    \<and> occurs_before (2, ESignal 300 False) (1, ESignal 100 False) ?g"
    by (simp add: late_release_trace_def occurs_before_def)
qed

subsection \<open>C3: one serial thread per barrier round\<close>

lemma barrier_last:
  assumes "\<not> (enforce_non_det_annotations opt \<and> inNonDet s)"
    and "barriers s b = Some \<lparr>count = n, narrived = a\<rparr>" and "Suc a = n"
  shows "fst (pthreadBarrierWait opt ins b s) = Return PTHREAD_BARRIER_SERIAL_THREAD"
    and "new_events s (snd (pthreadBarrierWait opt ins b s)) = last_arriver_trace b"
    and "barriers (snd (pthreadBarrierWait opt ins b s)) b = Some \<lparr>count = n, narrived = 0\<rparr>"
  using assms(2,3)
  by (simp_all add: det_False [OF assms(1)] pthreadBarrierWait_def seq_def Let_def turn_defs
      new_events_def last_arriver_trace_def)

lemma barrier_nonlast:
  assumes "\<not> (enforce_non_det_annotations opt \<and> inNonDet s)"
    and "barriers s b = Some \<lparr>count = n, narrived = a\<rparr>" and "Suc a < n"
    and "wait_results s = w # ws"
  shows "fst (pthreadBarrierWait opt ins b s) = Return 0"
    and "new_events s (snd (pthreadBarrierWait opt ins b s)) = waiter_trace b"
    and "barriers (snd (pthreadBarrierWait opt ins b s)) b = Some \<lparr>count = n, narrived = Suc a\<rparr>"
    and "wait_results (snd (pthreadBarrierWait opt ins b s)) = ws"
    and "inNonDet (snd (pthreadBarrierWait opt ins b s)) = inNonDet s"
  using assms(2,3,4)
  by (simp_all add: det_False [OF assms(1)] pthreadBarrierWait_def seq_def Let_def turn_defs
      new_events_def waiter_trace_def wait_def)

lemma barrier_group:
  "\<not> (enforce_non_det_annotations opt \<and> inNonDet s) \<Longrightarrow>
   barriers s b = Some \<lparr>count = n, narrived = a\<rparr> \<Longrightarrow> a + Suc k = n \<Longrightarrow>
   k \<le> length (wait_results s) \<Longrightarrow>
   fst (barrier_arrivals opt ins b (Suc k) s) =
     replicate k (Return 0, waiter_trace b)
       @ [(Return PTHREAD_BARRIER_SERIAL_THREAD, last_arriver_trace b)]
   \<and> barriers (snd (barrier_arrivals opt ins b (Suc k) s)) b = Some \<lparr>count = n, narrived = 0\<rparr>"
proof (induction k arbitrary: s a)
  case 0
  then have "Suc a = n" by simp
  from barrier_last [OF "0.prems"(1,2) this, of ins] show ?case
    by (simp add: case_prod_beta)
next
  case (Suc k)
  from Suc.prems(4) obtain w ws where w: "wait_results s = w # ws"
    by (cases "wait_results s") auto
  have lt: "Suc a < n" using Suc.prems(3) by simp
  note nl = barrier_nonlast [OF Suc.prems(1,2) lt w, of ins]
  let ?s1 = "snd (pthreadBarrierWait opt ins b s)"
  have ih: "fst (barrier_arrivals opt ins b (Suc k) ?s1) =
     replicate k (Return 0, waiter_trace b)
       @ [(Return PTHREAD_BARRIER_SERIAL_THREAD, last_arriver_trace b)]
   \<and> barriers (snd (barrier_arrivals opt ins b (Suc k) ?s1)) b = Some \<lparr>count = n, narrived = 0\<rparr>"
  proof (rule Suc.IH)
    show "\<not> (enforce_non_det_annotations opt \<and> inNonDet ?s1)"
      using Suc.prems(1) nl(5) by simp
    show "barriers ?s1 b = Some \<lparr>count = n, narrived = Suc a\<rparr>" by (rule nl(3))
    show "Suc a + Suc k = n" using Suc.prems(3) by simp
    show "k \<le> length (wait_results ?s1)" using Suc.prems(4) nl(4) w by simp
  qed
  have unf: "barrier_arrivals opt ins b (Suc (Suc k)) s =
      ((fst (pthreadBarrierWait opt ins b s), new_events s ?s1)
          # fst (barrier_arrivals opt ins b (Suc k) ?s1),
       snd (barrier_arrivals opt ins b (Suc k) ?s1))"
    by (simp add: case_prod_beta)
  show ?case
    unfolding unf using ih nl(1,2) by simp
qed

text \<open>
  C3. \<open>n\<close> threads call \<^verbatim>\<open>pthreadBarrierWait\<close> in a deterministic region on a barrier
  initialised with count \<open>n\<close>, and every waiter is woken. The first \<open>n - 1\<close> callers
  return 0 and the last returns \<open>PTHREAD_BARRIER_SERIAL_THREAD\<close>: exactly one caller gets
  it. The last arriver resets the arrived counter to 0, signals all waiters on the barrier
  channel and cycles the turn (putTurn immediately followed by getTurn); every other
  arriver waits on the barrier channel with the deadline \<open>FOREVER\<close>.
\<close>

theorem barrier_one_serial_thread:
  assumes det: "\<not> (enforce_non_det_annotations opt \<and> inNonDet s)"
    and init: "barriers s b = Some \<lparr>count = n, narrived = 0\<rparr>"
    and pos: "0 < n"
    and woken: "n - 1 \<le> length (wait_results s)"
    and rs: "rs = fst (barrier_arrivals opt ins b n s)"
  shows "map fst rs = replicate (n - 1) (Return 0) @ [Return PTHREAD_BARRIER_SERIAL_THREAD]
     \<and> length (filter (\<lambda>r. fst r = Return PTHREAD_BARRIER_SERIAL_THREAD) rs) = 1
     \<and> map snd rs = replicate (n - 1) (waiter_trace b) @ [last_arriver_trace b]
     \<and> last_arriver_trace b =
         [EGetTurn, EIncTurnCount, ESignal b True, EPutTurn False, EGetTurn,
          EIncTurnCount, EPutTurn False]
     \<and> EWait b FOREVER \<in> set (waiter_trace b)
     \<and> barriers (snd (barrier_arrivals opt ins b n s)) b = Some \<lparr>count = n, narrived = 0\<rparr>"
proof -
  obtain k where k: "n = Suc k" using pos by (cases n) auto
  from barrier_group [OF det init, of k ins] woken k
  have g: "rs = replicate k (Return 0, waiter_trace b)
       @ [(Return PTHREAD_BARRIER_SERIAL_THREAD, last_arriver_trace b)]"
    "barriers (snd (barrier_arrivals opt ins b n s)) b = Some \<lparr>count = n, narrived = 0\<rparr>"
    by (simp_all add: rs)
  have f: "filter (\<lambda>r. fst r = Return PTHREAD_BARRIER_SERIAL_THREAD)
      (replicate k (Return 0, waiter_trace b)) = []"
    by (simp add: PTHREAD_BARRIER_SERIAL_THREAD_def)
  show ?thesis
    using g k f by (simp add: map_replicate last_arriver_trace_def waiter_trace_def)
qed

theorem barrier_one_serial_thread_witness:
  "map fst (fst (barrier_arrivals opts0 7 300 3 sBar)) = [Return 0, Return 0, Return (- 1)]
   \<and> barriers (snd (barrier_arrivals opts0 7 300 3 sBar)) 300 = Some \<lparr>count = 3, narrived = 0\<rparr>"
  using barrier_one_serial_thread [of opts0 sBar 300 3 _ 7, OF _ _ _ _ refl]
  by (simp add: opts0_def sBar_def s0_def PTHREAD_BARRIER_SERIAL_THREAD_def numeral_3_eq_3)

subsection \<open>C5: the idle thread's turn\<close>

text \<open>
  C5, as the code has it. When the turn counter read by \<^verbatim>\<open>idle_cond_wait\<close> is
  non-negative as an \<^verbatim>\<open>int\<close>: if the run queue holds at least two threads (the idle
  thread and some other thread), the idle thread calls \<^verbatim>\<open>idleThreadCondWait\<close>;
  if it holds the idle thread alone, the idle thread calls putTurn.
\<close>

theorem idle_cond_wait_branches:
  assumes "0 \<le> sint (turnCount s + 1)"
  shows "fst (idle_cond_wait s) = Return ()
     \<and> new_events s (snd (idle_cond_wait s)) =
         (if 2 \<le> length (runq s) then [EGetTurn, EIncTurnCount, EIdleThreadCondWait]
          else [EGetTurn, EIncTurnCount, EPutTurn False])"
  using assms
  by (simp add: idle_cond_wait_def turn_defs idleThreadCondWait_def new_events_def Let_def)

theorem idle_cond_wait_branches_witness:
  "new_events sTwo (snd (idle_cond_wait sTwo)) = [EGetTurn, EIncTurnCount, EIdleThreadCondWait]"
  using idle_cond_wait_branches [of sTwo]
  by (simp add: sTwo_def s0_def)

text \<open>
  C5 as stated fails: with the idle thread alone in the run queue, \<^verbatim>\<open>idle_cond_wait\<close>
  yields the turn with putTurn and does not wait on the condition variable; with another
  thread in the run queue it does wait on it.
\<close>

theorem idle_cond_wait_alone_puts_turn:
  "runq s0 = [0]
   \<and> fst (idle_cond_wait s0) = Return ()
   \<and> new_events s0 (snd (idle_cond_wait s0)) = [EGetTurn, EIncTurnCount, EPutTurn False]
   \<and> EIdleThreadCondWait \<notin> set (new_events s0 (snd (idle_cond_wait s0)))
   \<and> runq sTwo = [0, 1]
   \<and> new_events sTwo (snd (idle_cond_wait sTwo)) = [EGetTurn, EIncTurnCount, EIdleThreadCondWait]"
  by (simp add: idle_cond_wait_def turn_defs idleThreadCondWait_def new_events_def sTwo_def
      s0_def Let_def)

subsection \<open>C6: the try-operation of the read-lock wrapper\<close>

text \<open>
  C6 fails on the code. In a deterministic region the one native try-operation of
  \<^verbatim>\<open>__pthread_rwlock_tryrdlock\<close> is the write-lock trylock, and its result is returned;
  the read-lock trylock is never called.
\<close>

theorem tryrdlock_wrapper_calls_trywrlock:
  assumes det: "\<not> (enforce_non_det_annotations opt \<and> inNonDet s)"
  shows "fst (RecorderRT_pthread_rwlock_tryrdlock opt ins rwlock s) = Return (native_ret s (ncalls s))
     \<and> new_events s (snd (RecorderRT_pthread_rwlock_tryrdlock opt ins rwlock s)) =
         [EGetTurn, ENative RWLockTryWrLock rwlock, EIncTurnCount, EPutTurn False]
     \<and> ENative RWLockTryRdLock rwlock \<notin>
         set (new_events s (snd (RecorderRT_pthread_rwlock_tryrdlock opt ins rwlock s)))"
  by (simp add: RecorderRT_pthread_rwlock_tryrdlock_def det_False [OF det] seq_def native_def
      Let_def turn_defs new_events_def)

theorem tryrdlock_wrapper_calls_trywrlock_witness:
  "fst (RecorderRT_pthread_rwlock_tryrdlock opts0 7 400 (s0\<lparr>native_ret := (\<lambda>k. 16)\<rparr>)) = Return 16
   \<and> new_events (s0\<lparr>native_ret := (\<lambda>k. 16)\<rparr>)
        (snd (RecorderRT_pthread_rwlock_tryrdlock opts0 7 400 (s0\<lparr>native_ret := (\<lambda>k. 16)\<rparr>))) =
         [EGetTurn, ENative RWLockTryWrLock 400, EIncTurnCount, EPutTurn False]"
  using tryrdlock_wrapper_calls_trywrlock [of opts0 "s0\<lparr>native_ret := (\<lambda>k. 16)\<rparr>" 7 400]
  by (simp add: opts0_def s0_def)

subsection \<open>C9: errno across the release of the turn\<close>

lemma semTimedWait_errno:
  assumes det: "\<not> (enforce_non_det_annotations opt \<and> inNonDet s)"
    and ret: "fst (semTimedWait opt ins sem (Some a) s) = Return r"
  shows "(r = 0 \<and> errno (snd (semTimedWait opt ins sem (Some a) s)) = 0)
       \<or> (r = - 1 \<and> errno (snd (semTimedWait opt ins sem (Some a) s)) = ETIMEDOUT)"
proof -
  obtain cur s1 where b: "base_or_clock WarnSemTimedWait s = (cur, s1)"
    by (cases "base_or_clock WarnSemTimedWait s")
  have f1: "inNonDet s1 = inNonDet s"
    using b by (auto simp: base_or_clock_def clock_gettime_def warn_def split: if_splits)
  let ?s2 = "getTurn s1"
  have g: "SCHED_GET_TURN opt s1 = (Return (), ?s2)"
    using det f1 by (auto simp: SCHED_GET_TURN_def sched_timer_start_def)
  obtain o3 s3 where c: "relTimeToTurn opt (Some (time_diff cur a)) ?s2 = (o3, s3)"
    by (cases "relTimeToTurn opt (Some (time_diff cur a)) ?s2")
  show ?thesis
  proof (cases o3)
    case (Stop e)
    then have "fst (semTimedWait opt ins sem (Some a) s) = Stop e"
      using b g c by (simp add: semTimedWait_def det_False [OF det] seq_def Let_def)
    with ret show ?thesis by simp
  next
    case (Return n)
    let ?t = "getTurnCount s3 + word_of_int n"
    obtain out s4 where l: "semTimedWait_loop sem ?t s3 = (out, s4)"
      by (cases "semTimedWait_loop sem ?t s3")
    have w: "semTimedWait opt ins sem (Some a) s =
        (case out of
           Return (ret, saved_err) \<Rightarrow>
             (Return ret,
              (SCHED_PUT_TURN opt ins sem_timedwait [sem, u64 ret] s4)\<lparr>errno := saved_err\<rparr>)
         | Stop e \<Rightarrow> (Stop e, s4))"
      using b g c l Return
      by (simp add: semTimedWait_def det_False [OF det] seq_def Let_def
          split: outcome.splits prod.splits)
    from sem_loop_outcomes [of sem ?t s3] l
    have "out = Return (0, 0) \<or> out = Return (- 1, ETIMEDOUT) \<or> out = Stop AssertFail
        \<or> out = Stop Blocked" by auto
    with ret show ?thesis by (auto simp: w)
  qed
qed

text \<open>
  C9, as the code has it. The routines that release the turn at the end of a wrapper
  (\<^verbatim>\<open>sched_timer_end\<close> behind \<^verbatim>\<open>SCHED_PUT_TURN\<close>, \<^verbatim>\<open>sched_thread_end\<close>) and
  \<^verbatim>\<open>BLOCK_TIMER_END\<close> leave errno as they found it, whatever putTurn and wakeup left in
  it. \<^verbatim>\<open>semTimedWait\<close> then overwrites errno: when it returns, errno is 0 after a
  return of 0 and \<open>ETIMEDOUT\<close> after a return of \<open>- 1\<close>.
\<close>

theorem errno_restored_after_putTurn:
  "errno (sched_timer_end b ins syncop args s) = errno s
   \<and> errno (sched_thread_end b ins syncop th s) = errno s
   \<and> errno (SCHED_PUT_TURN opt ins syncop args s) = errno s
   \<and> errno (BLOCK_TIMER_END s) = errno s
   \<and> (\<not> (enforce_non_det_annotations opt \<and> inNonDet s)
        \<and> fst (semTimedWait opt ins sem (Some a) s) = Return r \<longrightarrow>
        (r = 0 \<and> errno (snd (semTimedWait opt ins sem (Some a) s)) = 0)
        \<or> (r = - 1 \<and> errno (snd (semTimedWait opt ins sem (Some a) s)) = ETIMEDOUT))"
proof -
  have 1: "errno (sched_timer_end b ins syncop args s) = errno s" for b
    by (simp add: sched_timer_end_def Let_def)
  have 2: "errno (sched_thread_end b ins syncop th s) = errno s"
    by (simp add: sched_thread_end_def Let_def)
  have 3: "errno (SCHED_PUT_TURN opt ins syncop args s) = errno s"
    by (simp add: SCHED_PUT_TURN_def 1)
  have 4: "errno (BLOCK_TIMER_END s) = errno s"
    by (simp add: BLOCK_TIMER_END_def Let_def)
  from 1 2 3 4 semTimedWait_errno [of opt s ins sem a r] show ?thesis by blast
qed

lemma semTimedWait_sSemT:
  "fst (semTimedWait opts0 7 200 (Some abs1) sSemT) = Return (- 1)"
  by (simp add: semTimedWait_def base_or_clock_def clock_gettime_def warn_def seq_def
      relTimeToTurn_def time2turn_def time_diff_def u64_def MAX_REL_def Let_def
      semTimedWait_loop.simps [of 200] native_def wait_def turn_defs opts0_def s0_def abs1_def
      sSemT_def EAGAIN_def ETIMEDOUT_def)

theorem errno_restored_after_putTurn_witness:
  "errno (putTurn False sClobber) = 99
   \<and> errno (sched_timer_end True 7 pthread_mutex_unlock [100, 0] sClobber) = 5
   \<and> errno (BLOCK_TIMER_END sClobber) = 5
   \<and> errno (snd (semTimedWait opts0 7 200 (Some abs1) sSemT)) = 110"
  using errno_restored_after_putTurn [of True 7 pthread_mutex_unlock "[100, 0]" sClobber 0 opts0
      200 abs1 0]
    errno_restored_after_putTurn [of True 7 pthread_mutex_unlock "[100, 0]" sSemT 0 opts0
      200 abs1 "- 1"]
    semTimedWait_sSemT
  by (simp add: sClobber_def s0_def putTurn_def sched_op_def opts0_def sSemT_def ETIMEDOUT_def)

text \<open>
  C9 as stated fails: \<^verbatim>\<open>semTimedWait\<close> called with errno 4 on an available
  semaphore, with a scheduler that leaves errno alone, returns 0 with errno 0. The value
  errno had before putTurn (4) is not the value the application sees after the wrapper.
\<close>

theorem semTimedWait_overwrites_errno:
  "errno (s0\<lparr>errno := 4\<rparr>) = 4
   \<and> fst (semTimedWait opts0 7 200 (Some abs1) (s0\<lparr>errno := 4\<rparr>)) = Return 0
   \<and> errno (snd (semTimedWait opts0 7 200 (Some abs1) (s0\<lparr>errno := 4\<rparr>))) = 0"
  by (simp add: semTimedWait_def base_or_clock_def clock_gettime_def warn_def seq_def
      relTimeToTurn_def time2turn_def time_diff_def u64_def MAX_REL_def Let_def
      semTimedWait_loop.simps [of 200] native_def turn_defs opts0_def s0_def abs1_def)

subsection \<open>C8: no base time, no idle thread\<close>

lemma helper_events:
  "\<exists>es. events (snd (pthreadMutexLockHelper mu t s)) = events s @ es"
proof (induction mu t s rule: pthreadMutexLockHelper.induct)
  case (1 mu timeout s)
  obtain ret s1 where n: "native MutexTryLock mu s = (ret, s1)"
    by (cases "native MutexTryLock mu s")
  have e1: "events s1 = events s @ [ENative MutexTryLock mu]"
    using n by (auto simp: native_def Let_def)
  obtain r s2 where w: "wait mu timeout s1 = (r, s2)"
    by (cases "wait mu timeout s1")
  have e2: "events s2 = events s1 @ [EWait mu timeout]"
    using w by (auto simp: wait_def sched_op_def Let_def split: list.splits)
  show ?case
  proof (cases "ret = EBUSY \<and> ret \<noteq> 0 \<and> (\<exists>x. r = Some x \<and> x \<noteq> ETIMEDOUT)")
    case False
    then show ?thesis
      using n w e1 e2
      by (cases r) (auto simp: pthreadMutexLockHelper.simps [of mu timeout s])
  next
    case True
    then obtain x where x: "r = Some x" "x \<noteq> ETIMEDOUT" by blast
    have h: "pthreadMutexLockHelper mu timeout s = pthreadMutexLockHelper mu timeout s2"
      using n w True x by (simp add: pthreadMutexLockHelper.simps [of mu timeout s])
    have "\<exists>es. events (snd (pthreadMutexLockHelper mu timeout s2)) = events s2 @ es"
      using "1.IH" n w True x by auto
    then show ?thesis using h e1 e2 by auto
  qed
qed

lemma sem_loop_events:
  "\<exists>es. events (snd (semTimedWait_loop sem t s)) = events s @ es"
proof (induction sem t s rule: semTimedWait_loop.induct)
  case (1 sem timeout s)
  obtain ret s1 where n: "native SemTryWait sem s = (ret, s1)"
    by (cases "native SemTryWait sem s")
  have e1: "events s1 = events s @ [ENative SemTryWait sem]"
    using n by (auto simp: native_def Let_def)
  obtain r s2 where w: "wait sem timeout s1 = (r, s2)"
    by (cases "wait sem timeout s1")
  have e2: "events s2 = events s1 @ [EWait sem timeout]"
    using w by (auto simp: wait_def sched_op_def Let_def split: list.splits)
  show ?case
  proof (cases "ret \<noteq> 0 \<and> errno s1 = EAGAIN \<and> (\<exists>x. r = Some x \<and> x \<noteq> ETIMEDOUT)")
    case False
    then show ?thesis
      using n w e1 e2
      by (cases r) (auto simp: semTimedWait_loop.simps [of sem timeout s])
  next
    case True
    then obtain x where x: "r = Some x" "x \<noteq> ETIMEDOUT" by blast
    have h: "semTimedWait_loop sem timeout s = semTimedWait_loop sem timeout s2"
      using n w True x by (simp add: semTimedWait_loop.simps [of sem timeout s])
    have "\<exists>es. events (snd (semTimedWait_loop sem timeout s2)) = events s2 @ es"
      using "1.IH" n w True x by auto
    then show ?thesis using h e1 e2 by auto
  qed
qed

lemma helper_trace:
  "\<exists>es. events (snd (pthreadMutexLockHelper mu t s)) = events s @ es
      \<and> (\<forall>c d. EWait c d \<in> set es \<longrightarrow> c = mu \<and> d = t)
      \<and> (native_ret s (ncalls s) = EBUSY \<longrightarrow> take 2 es = [ENative MutexTryLock mu, EWait mu t])"
proof (induction mu t s rule: pthreadMutexLockHelper.induct)
  case (1 mu timeout s)
  obtain ret s1 where n: "native MutexTryLock mu s = (ret, s1)"
    by (cases "native MutexTryLock mu s")
  have e1: "events s1 = events s @ [ENative MutexTryLock mu]" "ret = native_ret s (ncalls s)"
    using n by (auto simp: native_def Let_def)
  obtain r s2 where w: "wait mu timeout s1 = (r, s2)"
    by (cases "wait mu timeout s1")
  have e2: "events s2 = events s1 @ [EWait mu timeout]"
    using w by (auto simp: wait_def sched_op_def Let_def split: list.splits)
  show ?case
  proof (cases "ret = EBUSY \<and> ret \<noteq> 0 \<and> (\<exists>x. r = Some x \<and> x \<noteq> ETIMEDOUT)")
    case False
    then show ?thesis
      using n w e1 e2
      by (cases r) (auto simp: pthreadMutexLockHelper.simps [of mu timeout s] EBUSY_def)
  next
    case True
    then obtain x where x: "r = Some x" "x \<noteq> ETIMEDOUT" by blast
    have h: "pthreadMutexLockHelper mu timeout s = pthreadMutexLockHelper mu timeout s2"
      using n w True x by (simp add: pthreadMutexLockHelper.simps [of mu timeout s])
    have "\<exists>es. events (snd (pthreadMutexLockHelper mu timeout s2)) = events s2 @ es
        \<and> (\<forall>c d. EWait c d \<in> set es \<longrightarrow> c = mu \<and> d = timeout)
        \<and> (native_ret s2 (ncalls s2) = EBUSY \<longrightarrow>
             take 2 es = [ENative MutexTryLock mu, EWait mu timeout])"
      using "1.IH" n w True x by simp
    then obtain es where es: "events (snd (pthreadMutexLockHelper mu timeout s2)) = events s2 @ es"
      "\<forall>c d. EWait c d \<in> set es \<longrightarrow> c = mu \<and> d = timeout" by blast
    show ?thesis
    proof (intro exI conjI)
      show "events (snd (pthreadMutexLockHelper mu timeout s)) =
          events s @ ([ENative MutexTryLock mu, EWait mu timeout] @ es)"
        using h es(1) e1 e2 by simp
      show "\<forall>c d. EWait c d \<in> set ([ENative MutexTryLock mu, EWait mu timeout] @ es) \<longrightarrow>
          c = mu \<and> d = timeout"
        using es(2) by auto
      show "native_ret s (ncalls s) = EBUSY \<longrightarrow>
          take 2 ([ENative MutexTryLock mu, EWait mu timeout] @ es) =
            [ENative MutexTryLock mu, EWait mu timeout]"
        by simp
    qed
  qed
qed

lemma sem_loop_trace:
  "\<exists>es. events (snd (semTimedWait_loop sem t s)) = events s @ es
      \<and> (\<forall>c d. EWait c d \<in> set es \<longrightarrow> c = sem \<and> d = t)
      \<and> (native_ret s (ncalls s) \<noteq> 0 \<and> native_errno s (ncalls s) = Some EAGAIN \<longrightarrow>
           take 2 es = [ENative SemTryWait sem, EWait sem t])"
proof (induction sem t s rule: semTimedWait_loop.induct)
  case (1 sem timeout s)
  obtain ret s1 where n: "native SemTryWait sem s = (ret, s1)"
    by (cases "native SemTryWait sem s")
  have e1: "events s1 = events s @ [ENative SemTryWait sem]" "ret = native_ret s (ncalls s)"
    "errno s1 = (case native_errno s (ncalls s) of None \<Rightarrow> errno s | Some e \<Rightarrow> e)"
    using n by (auto simp: native_def Let_def)
  obtain r s2 where w: "wait sem timeout s1 = (r, s2)"
    by (cases "wait sem timeout s1")
  have e2: "events s2 = events s1 @ [EWait sem timeout]"
    using w by (auto simp: wait_def sched_op_def Let_def split: list.splits)
  show ?case
  proof (cases "ret \<noteq> 0 \<and> errno s1 = EAGAIN \<and> (\<exists>x. r = Some x \<and> x \<noteq> ETIMEDOUT)")
    case False
    then show ?thesis
      using n w e1 e2
      by (cases r) (auto simp: semTimedWait_loop.simps [of sem timeout s])
  next
    case True
    then obtain x where x: "r = Some x" "x \<noteq> ETIMEDOUT" by blast
    have h: "semTimedWait_loop sem timeout s = semTimedWait_loop sem timeout s2"
      using n w True x by (simp add: semTimedWait_loop.simps [of sem timeout s])
    have "\<exists>es. events (snd (semTimedWait_loop sem timeout s2)) = events s2 @ es
        \<and> (\<forall>c d. EWait c d \<in> set es \<longrightarrow> c = sem \<and> d = timeout)
        \<and> (native_ret s2 (ncalls s2) \<noteq> 0 \<and> native_errno s2 (ncalls s2) = Some EAGAIN \<longrightarrow>
             take 2 es = [ENative SemTryWait sem, EWait sem timeout])"
      using "1.IH" n w True x by simp
    then obtain es where es: "events (snd (semTimedWait_loop sem timeout s2)) = events s2 @ es"
      "\<forall>c d. EWait c d \<in> set es \<longrightarrow> c = sem \<and> d = timeout" by blast
    show ?thesis
    proof (intro exI conjI)
      show "events (snd (semTimedWait_loop sem timeout s)) =
          events s @ ([ENative SemTryWait sem, EWait sem timeout] @ es)"
        using h es(1) e1 e2 by simp
      show "\<forall>c d. EWait c d \<in> set ([ENative SemTryWait sem, EWait sem timeout] @ es) \<longrightarrow>
          c = sem \<and> d = timeout"
        using es(2) by auto
      show "native_ret s (ncalls s) \<noteq> 0 \<and> native_errno s (ncalls s) = Some EAGAIN \<longrightarrow>
          take 2 ([ENative SemTryWait sem, EWait sem timeout] @ es) =
            [ENative SemTryWait sem, EWait sem timeout]"
        by simp
    qed
  qed
qed


lemma put_turn_events:
  "events (SCHED_PUT_TURN opt ins syncop args s) = events s @ [EIncTurnCount, EPutTurn False]"
  by (simp add: turn_defs Let_def)

lemma base_unset:
  "tv_sec (my_base_time s) = 0 \<Longrightarrow>
   base_or_clock w s = (clock_now s, s\<lparr>events := events s @ [EWarn w, EClockGettime]\<rparr>)"
  by (simp add: base_or_clock_def clock_gettime_def warn_def)

lemma relTimeToTurn_value:
  assumes "launch_idle_thread opt" "0 < nanosec_per_turn opt" "nthread s' = nthread s"
  shows "\<exists>n. relTimeToTurn opt (Some rt) s = (Return n, s)
           \<and> relTimeToTurn opt (Some rt) s' = (Return n, s')"
  using assms by (simp add: relTimeToTurn_def time2turn_def seq_def Let_def)

lemma mutex_fallback:
  assumes det: "\<not> (enforce_non_det_annotations opt \<and> inNonDet s)"
    and unset: "tv_sec (my_base_time s) = 0"
    and idle: "launch_idle_thread opt" and npt: "0 < nanosec_per_turn opt"
  shows "(\<exists>es. events (snd (pthreadMutexTimedLock opt ins mu (Some a) s)) =
            events s @ [EWarn WarnMutexTimedLock, EClockGettime] @ es)
       \<and> fst (pthreadMutexTimedLock opt ins mu (Some a) s) \<noteq> Stop (Exited k)"
proof -
  let ?sb = "s\<lparr>events := events s @ [EWarn WarnMutexTimedLock, EClockGettime]\<rparr>"
  let ?s2 = "getTurn ?sb"
  have g: "SCHED_GET_TURN opt ?sb = (Return (), ?s2)"
    using det by (auto simp: SCHED_GET_TURN_def sched_timer_start_def)
  obtain n where n: "relTimeToTurn opt (Some (time_diff (clock_now s) a)) ?s2 = (Return n, ?s2)"
    using relTimeToTurn_returns [OF idle npt] by blast
  let ?sh = "?s2\<lparr>errno := error ?s2\<rparr>"
  let ?t = "getTurnCount ?s2 + word_of_int n"
  obtain out s4 where l: "pthreadMutexLockHelper mu ?t ?sh = (out, s4)"
    by (cases "pthreadMutexLockHelper mu ?t ?sh")
  have w: "pthreadMutexTimedLock opt ins mu (Some a) s =
      (case out of
         Return ret \<Rightarrow>
           (Return ret,
            SCHED_PUT_TURN opt ins pthread_mutex_timedlock [mu, u64 ret] (s4\<lparr>error := errno s4\<rparr>))
       | Stop e \<Rightarrow> (Stop e, s4))"
    using g n l
    by (simp add: pthreadMutexTimedLock_def det_False [OF det] base_unset [OF unset] seq_def
        Let_def split: outcome.splits)
  from helper_events [of mu ?t ?sh] l obtain es where
    es: "events s4 = events s @ [EWarn WarnMutexTimedLock, EClockGettime] @ EGetTurn # es"
    by (auto simp: getTurn_def sched_op_def)
  from helper_outcomes [of mu ?t ?sh] l
  have o: "out = Return 0 \<or> out = Return ETIMEDOUT \<or> out = Stop AssertFail \<or> out = Stop Blocked"
    by auto
  have "\<exists>es. events (snd (pthreadMutexTimedLock opt ins mu (Some a) s)) =
            events s @ [EWarn WarnMutexTimedLock, EClockGettime] @ es"
    using es by (cases out) (simp_all add: w put_turn_events)
  moreover have "fst (pthreadMutexTimedLock opt ins mu (Some a) s) \<noteq> Stop (Exited k)"
    using o by (auto simp: w)
  ultimately show ?thesis by blast
qed

lemma sem_fallback:
  assumes det: "\<not> (enforce_non_det_annotations opt \<and> inNonDet s)"
    and unset: "tv_sec (my_base_time s) = 0"
    and idle: "launch_idle_thread opt" and npt: "0 < nanosec_per_turn opt"
  shows "(\<exists>es. events (snd (semTimedWait opt ins sem (Some a) s)) =
            events s @ [EWarn WarnSemTimedWait, EClockGettime] @ es)
       \<and> fst (semTimedWait opt ins sem (Some a) s) \<noteq> Stop (Exited k)"
proof -
  let ?sb = "s\<lparr>events := events s @ [EWarn WarnSemTimedWait, EClockGettime]\<rparr>"
  let ?s2 = "getTurn ?sb"
  have g: "SCHED_GET_TURN opt ?sb = (Return (), ?s2)"
    using det by (auto simp: SCHED_GET_TURN_def sched_timer_start_def)
  obtain n where n: "relTimeToTurn opt (Some (time_diff (clock_now s) a)) ?s2 = (Return n, ?s2)"
    using relTimeToTurn_returns [OF idle npt] by blast
  let ?t = "getTurnCount ?s2 + word_of_int n"
  obtain out s4 where l: "semTimedWait_loop sem ?t ?s2 = (out, s4)"
    by (cases "semTimedWait_loop sem ?t ?s2")
  have w: "semTimedWait opt ins sem (Some a) s =
      (case out of
         Return (ret, saved_err) \<Rightarrow>
           (Return ret,
            (SCHED_PUT_TURN opt ins sem_timedwait [sem, u64 ret] s4)\<lparr>errno := saved_err\<rparr>)
       | Stop e \<Rightarrow> (Stop e, s4))"
    using g n l
    by (simp add: semTimedWait_def det_False [OF det] base_unset [OF unset] seq_def
        Let_def split: outcome.splits prod.splits)
  from sem_loop_events [of sem ?t ?s2] l obtain es where
    es: "events s4 = events s @ [EWarn WarnSemTimedWait, EClockGettime] @ EGetTurn # es"
    by (auto simp: getTurn_def sched_op_def)
  from sem_loop_outcomes [of sem ?t ?s2] l
  have o: "out = Return (0, 0) \<or> out = Return (- 1, ETIMEDOUT) \<or> out = Stop AssertFail
      \<or> out = Stop Blocked"
    by auto
  have "\<exists>es. events (snd (semTimedWait opt ins sem (Some a) s)) =
            events s @ [EWarn WarnSemTimedWait, EClockGettime] @ es"
    using es o by (auto simp: w put_turn_events)
  moreover have "fst (semTimedWait opt ins sem (Some a) s) \<noteq> Stop (Exited k)"
    using o by (auto simp: w)
  ultimately show ?thesis by blast
qed


lemma cond_fallback:
  assumes det: "\<not> (enforce_non_det_annotations opt \<and> inNonDet s)"
    and unset: "tv_sec (my_base_time s) = 0"
    and idle: "launch_idle_thread opt" and npt: "0 < nanosec_per_turn opt"
  shows "\<exists>n es. fst (relTimeToTurn opt (Some (time_diff (clock_now s) a)) s) = Return n
          \<and> events (snd (pthreadCondTimedWait opt ins cv mu (Some a) s)) =
              events s @ [EWarn WarnCondTimedWait, EClockGettime, EGetTurn,
                          ENative MutexUnlock mu, EIncTurnCount, ESignal mu False,
                          EWait cv (turnCount s + 1 + word_of_int n)] @ es
          \<and> fst (pthreadCondTimedWait opt ins cv mu (Some a) s) \<noteq> Stop (Exited k)"
proof -
  let ?sb = "s\<lparr>events := events s @ [EWarn WarnCondTimedWait, EClockGettime]\<rparr>"
  let ?s2 = "getTurn ?sb"
  let ?s3 = "snd (native MutexUnlock mu ?s2)"
  let ?s4 = "SCHED_INC_TURN opt ins pthread_cond_timedwait [cv, mu, 0] ?s3"
  let ?s5 = "signal mu False ?s4"
  let ?rel = "time_diff (clock_now s) a"
  have g: "SCHED_GET_TURN opt ?sb = (Return (), ?s2)"
    using det by (auto simp: SCHED_GET_TURN_def sched_timer_start_def)
  have nt: "nthread ?s5 = nthread s"
    by (simp add: turn_defs native_def Let_def)
  from relTimeToTurn_value [OF idle npt nt, of ?rel]
  obtain n where n: "relTimeToTurn opt (Some ?rel) s = (Return n, s)"
    "relTimeToTurn opt (Some ?rel) ?s5 = (Return n, ?s5)" by blast
  have e5: "events ?s5 = events s @ [EWarn WarnCondTimedWait, EClockGettime, EGetTurn,
                          ENative MutexUnlock mu, EIncTurnCount, ESignal mu False]"
    by (simp add: turn_defs native_def Let_def)
  have tc: "getTurnCount ?s5 = turnCount s + 1"
    by (simp add: turn_defs native_def Let_def)
  let ?t = "turnCount s + 1 + word_of_int n"
  obtain r s7 where wt: "wait cv ?t ?s5 = (r, s7)"
    by (cases "wait cv ?t ?s5")
  have e7: "events s7 = events ?s5 @ [EWait cv ?t]"
    using wt by (auto simp: wait_def sched_op_def Let_def split: list.splits)
  let ?sh = "s7\<lparr>errno := error s7\<rparr>"
  obtain out s8 where l: "pthreadMutexLockHelper mu FOREVER ?sh = (out, s8)"
    by (cases "pthreadMutexLockHelper mu FOREVER ?sh")
  have w: "pthreadCondTimedWait opt ins cv mu (Some a) s =
      (case r of
         None \<Rightarrow> (Stop Blocked, s7)
       | Some ret \<Rightarrow>
           (case out of
              Return _ \<Rightarrow>
                (Return ret,
                 SCHED_PUT_TURN opt ins pthread_cond_timedwait [cv, mu, u64 ret]
                   (s8\<lparr>error := errno s8\<rparr>))
            | Stop e \<Rightarrow> (Stop e, s8)))"
    using g n(2) wt l
    by (simp add: pthreadCondTimedWait_def base_unset [OF unset] det_False [OF det] seq_def
        Let_def tc split: outcome.splits option.splits)
  from helper_events [of mu FOREVER ?sh] l obtain es where
    es: "events s8 = events s7 @ es" by auto
  from helper_outcomes [of mu FOREVER ?sh] l
  have o: "out = Return 0 \<or> out = Return ETIMEDOUT \<or> out = Stop AssertFail \<or> out = Stop Blocked"
    by auto
  have ev: "\<exists>es. events (snd (pthreadCondTimedWait opt ins cv mu (Some a) s)) =
              events s @ [EWarn WarnCondTimedWait, EClockGettime, EGetTurn,
                          ENative MutexUnlock mu, EIncTurnCount, ESignal mu False,
                          EWait cv ?t] @ es"
    using es e7 e5 o by (cases r) (auto simp: w put_turn_events)
  have ne: "fst (pthreadCondTimedWait opt ins cv mu (Some a) s) \<noteq> Stop (Exited k)"
    using o by (cases r) (auto simp: w)
  from n(1) ev ne show ?thesis by auto
qed

lemma mutex_deadline:
  assumes det: "\<not> (enforce_non_det_annotations opt \<and> inNonDet s)"
    and unset: "tv_sec (my_base_time s) = 0"
    and idle: "launch_idle_thread opt" and npt: "0 < nanosec_per_turn opt"
    and n: "fst (relTimeToTurn opt (Some (time_diff (clock_now s) a)) s) = Return n"
  shows "\<exists>es. events (snd (pthreadMutexTimedLock opt ins mu (Some a) s)) =
            events s @ [EWarn WarnMutexTimedLock, EClockGettime, EGetTurn] @ es
          \<and> (\<forall>c d. EWait c d \<in> set es \<longrightarrow> c = mu \<and> d = turnCount s + word_of_int n)
          \<and> (native_ret s (ncalls s) = EBUSY \<longrightarrow>
               take 2 es = [ENative MutexTryLock mu, EWait mu (turnCount s + word_of_int n)])"
proof -
  let ?sb = "s\<lparr>events := events s @ [EWarn WarnMutexTimedLock, EClockGettime]\<rparr>"
  let ?s2 = "getTurn ?sb"
  let ?rel = "time_diff (clock_now s) a"
  have g: "SCHED_GET_TURN opt ?sb = (Return (), ?s2)"
    using det by (auto simp: SCHED_GET_TURN_def sched_timer_start_def)
  have nt: "nthread ?s2 = nthread s"
    by (simp add: getTurn_def sched_op_def)
  from relTimeToTurn_value [OF idle npt nt, of ?rel] n
  have n2: "relTimeToTurn opt (Some ?rel) ?s2 = (Return n, ?s2)"
    by auto
  let ?sh = "?s2\<lparr>errno := error ?s2\<rparr>"
  let ?t = "turnCount s + word_of_int n"
  have tc: "getTurnCount ?s2 = turnCount s"
    by (simp add: getTurnCount_def getTurn_def sched_op_def)
  obtain out s4 where l: "pthreadMutexLockHelper mu ?t ?sh = (out, s4)"
    by (cases "pthreadMutexLockHelper mu ?t ?sh")
  have w: "pthreadMutexTimedLock opt ins mu (Some a) s =
      (case out of
         Return ret \<Rightarrow>
           (Return ret,
            SCHED_PUT_TURN opt ins pthread_mutex_timedlock [mu, u64 ret] (s4\<lparr>error := errno s4\<rparr>))
       | Stop e \<Rightarrow> (Stop e, s4))"
    using g n2 l
    by (simp add: pthreadMutexTimedLock_def det_False [OF det] base_unset [OF unset] seq_def
        Let_def tc split: outcome.splits)
  have esh: "events ?sh = events s @ [EWarn WarnMutexTimedLock, EClockGettime, EGetTurn]"
    "native_ret ?sh = native_ret s" "ncalls ?sh = ncalls s"
    by (simp_all add: getTurn_def sched_op_def)
  from helper_trace [of mu ?t ?sh] l esh obtain es where
    es: "events s4 = events s @ [EWarn WarnMutexTimedLock, EClockGettime, EGetTurn] @ es"
    "\<forall>c d. EWait c d \<in> set es \<longrightarrow> c = mu \<and> d = ?t"
    "native_ret s (ncalls s) = EBUSY \<longrightarrow> take 2 es = [ENative MutexTryLock mu, EWait mu ?t]"
    by auto
  show ?thesis
  proof (cases out)
    case (Stop e)
    then show ?thesis using es by (simp add: w)
  next
    case (Return ret)
    show ?thesis
    proof (intro exI conjI)
      show "events (snd (pthreadMutexTimedLock opt ins mu (Some a) s)) =
          events s @ [EWarn WarnMutexTimedLock, EClockGettime, EGetTurn] @
            (es @ [EIncTurnCount, EPutTurn False])"
        using Return es(1) by (simp add: w put_turn_events)
      show "\<forall>c d. EWait c d \<in> set (es @ [EIncTurnCount, EPutTurn False]) \<longrightarrow> c = mu \<and> d = ?t"
        using es(2) by auto
      show "native_ret s (ncalls s) = EBUSY \<longrightarrow>
          take 2 (es @ [EIncTurnCount, EPutTurn False]) = [ENative MutexTryLock mu, EWait mu ?t]"
      proof
        assume "native_ret s (ncalls s) = EBUSY"
        with es(3) have t2: "take 2 es = [ENative MutexTryLock mu, EWait mu ?t]" by simp
        then have "2 \<le> length es" by (cases es; cases "tl es") auto
        with t2 show "take 2 (es @ [EIncTurnCount, EPutTurn False]) =
            [ENative MutexTryLock mu, EWait mu ?t]" by simp
      qed
    qed
  qed
qed

lemma sem_deadline:
  assumes det: "\<not> (enforce_non_det_annotations opt \<and> inNonDet s)"
    and unset: "tv_sec (my_base_time s) = 0"
    and idle: "launch_idle_thread opt" and npt: "0 < nanosec_per_turn opt"
    and n: "fst (relTimeToTurn opt (Some (time_diff (clock_now s) a)) s) = Return n"
  shows "\<exists>es. events (snd (semTimedWait opt ins sem (Some a) s)) =
            events s @ [EWarn WarnSemTimedWait, EClockGettime, EGetTurn] @ es
          \<and> (\<forall>c d. EWait c d \<in> set es \<longrightarrow> c = sem \<and> d = turnCount s + word_of_int n)
          \<and> (native_ret s (ncalls s) \<noteq> 0 \<and> native_errno s (ncalls s) = Some EAGAIN \<longrightarrow>
               take 2 es = [ENative SemTryWait sem, EWait sem (turnCount s + word_of_int n)])"
proof -
  let ?sb = "s\<lparr>events := events s @ [EWarn WarnSemTimedWait, EClockGettime]\<rparr>"
  let ?s2 = "getTurn ?sb"
  let ?rel = "time_diff (clock_now s) a"
  have g: "SCHED_GET_TURN opt ?sb = (Return (), ?s2)"
    using det by (auto simp: SCHED_GET_TURN_def sched_timer_start_def)
  have nt: "nthread ?s2 = nthread s"
    by (simp add: getTurn_def sched_op_def)
  from relTimeToTurn_value [OF idle npt nt, of ?rel] n
  have n2: "relTimeToTurn opt (Some ?rel) ?s2 = (Return n, ?s2)"
    by auto
  let ?t = "turnCount s + word_of_int n"
  have tc: "getTurnCount ?s2 = turnCount s"
    by (simp add: getTurnCount_def getTurn_def sched_op_def)
  obtain out s4 where l: "semTimedWait_loop sem ?t ?s2 = (out, s4)"
    by (cases "semTimedWait_loop sem ?t ?s2")
  have w: "semTimedWait opt ins sem (Some a) s =
      (case out of
         Return (ret, saved_err) \<Rightarrow>
           (Return ret,
            (SCHED_PUT_TURN opt ins sem_timedwait [sem, u64 ret] s4)\<lparr>errno := saved_err\<rparr>)
       | Stop e \<Rightarrow> (Stop e, s4))"
    using g n2 l
    by (simp add: semTimedWait_def det_False [OF det] base_unset [OF unset] seq_def
        Let_def tc split: outcome.splits prod.splits)
  have esh: "events ?s2 = events s @ [EWarn WarnSemTimedWait, EClockGettime, EGetTurn]"
    "native_ret ?s2 = native_ret s" "ncalls ?s2 = ncalls s" "native_errno ?s2 = native_errno s"
    by (simp_all add: getTurn_def sched_op_def)
  from sem_loop_trace [of sem ?t ?s2] l esh obtain es where
    es: "events s4 = events s @ [EWarn WarnSemTimedWait, EClockGettime, EGetTurn] @ es"
    "\<forall>c d. EWait c d \<in> set es \<longrightarrow> c = sem \<and> d = ?t"
    "native_ret s (ncalls s) \<noteq> 0 \<and> native_errno s (ncalls s) = Some EAGAIN \<longrightarrow>
       take 2 es = [ENative SemTryWait sem, EWait sem ?t]"
    by auto
  show ?thesis
  proof (cases out)
    case (Stop e)
    then show ?thesis using es by (simp add: w)
  next
    case (Return p)
    obtain ret saved_err where p: "p = (ret, saved_err)" by (cases p)
    show ?thesis
    proof (intro exI conjI)
      show "events (snd (semTimedWait opt ins sem (Some a) s)) =
          events s @ [EWarn WarnSemTimedWait, EClockGettime, EGetTurn] @
            (es @ [EIncTurnCount, EPutTurn False])"
        using Return p es(1) by (simp add: w put_turn_events)
      show "\<forall>c d. EWait c d \<in> set (es @ [EIncTurnCount, EPutTurn False]) \<longrightarrow> c = sem \<and> d = ?t"
        using es(2) by auto
      show "native_ret s (ncalls s) \<noteq> 0 \<and> native_errno s (ncalls s) = Some EAGAIN \<longrightarrow>
          take 2 (es @ [EIncTurnCount, EPutTurn False]) = [ENative SemTryWait sem, EWait sem ?t]"
      proof
        assume "native_ret s (ncalls s) \<noteq> 0 \<and> native_errno s (ncalls s) = Some EAGAIN"
        with es(3) have t2: "take 2 es = [ENative SemTryWait sem, EWait sem ?t]" by simp
        then have "2 \<le> length es" by (cases es; cases "tl es") auto
        with t2 show "take 2 (es @ [EIncTurnCount, EPutTurn False]) =
            [ENative SemTryWait sem, EWait sem ?t]" by simp
      qed
    qed
  qed
qed

lemma exit_without_idle_thread:
  assumes det: "\<not> (enforce_non_det_annotations opt \<and> inNonDet s)"
    and noidle: "\<not> launch_idle_thread opt"
  shows "fst (pthreadMutexTimedLock opt ins mu (Some a) s) = Stop (Exited 1)
       \<and> EWarn WarnNoIdleThread \<in> set (new_events s (snd (pthreadMutexTimedLock opt ins mu (Some a) s)))
       \<and> fst (semTimedWait opt ins sem (Some a) s) = Stop (Exited 1)
       \<and> EWarn WarnNoIdleThread \<in> set (new_events s (snd (semTimedWait opt ins sem (Some a) s)))
       \<and> fst (pthreadCondTimedWait opt ins cv mu (Some a) s) = Stop (Exited 1)
       \<and> EWarn WarnNoIdleThread \<in>
           set (new_events s (snd (pthreadCondTimedWait opt ins cv mu (Some a) s)))"
  using noidle
  by (simp add: pthreadMutexTimedLock_def semTimedWait_def pthreadCondTimedWait_def
      det_False [OF det] base_or_clock_def clock_gettime_def warn_def seq_def Let_def
      relTimeToTurn_def time2turn_def turn_defs native_def new_events_def)


text \<open>
  C8, as the code has it. A timed wrapper (\<^verbatim>\<open>pthreadMutexTimedLock\<close>,
  \<^verbatim>\<open>semTimedWait\<close>, \<^verbatim>\<open>pthreadCondTimedWait\<close>) is called in a deterministic region
  with an absolute deadline and no base time set. It first logs its warning and reads the
  wall clock. With the idle thread launched (and a positive \<open>nanosec_per_turn\<close>) the call
  goes on and never exits the process, and the wall clock is the base of the deadline: with
  \<open>n\<close> the turns of the interval between the wall clock and the absolute time, every wait
  of \<^verbatim>\<open>pthreadMutexTimedLock\<close> and of \<^verbatim>\<open>semTimedWait\<close> is on the wrapper's own
  object with the deadline \<open>turnCount + n\<close>, such a wait is the fifth event of the call when
  the first try-operation fails, and the wait of \<^verbatim>\<open>pthreadCondTimedWait\<close> has the
  deadline \<open>turnCount + 1 + n\<close> (the turn count after its \<^verbatim>\<open>incTurnCount\<close>). Without
  the idle thread the conversion prints its warning and the process exits with status 1.
\<close>

theorem base_time_fallback:
  assumes det: "\<not> (enforce_non_det_annotations opt \<and> inNonDet s)"
    and unset: "tv_sec (my_base_time s) = 0"
  shows "(launch_idle_thread opt \<and> 0 < nanosec_per_turn opt \<longrightarrow>
            (\<exists>n. fst (relTimeToTurn opt (Some (time_diff (clock_now s) a)) s) = Return n
                \<and> take 3 (new_events s (snd (pthreadMutexTimedLock opt ins mu (Some a) s))) =
                    [EWarn WarnMutexTimedLock, EClockGettime, EGetTurn]
                \<and> (\<forall>c d. EWait c d \<in>
                            set (new_events s (snd (pthreadMutexTimedLock opt ins mu (Some a) s)))
                      \<longrightarrow> c = mu \<and> d = turnCount s + word_of_int n)
                \<and> (native_ret s (ncalls s) = EBUSY \<longrightarrow>
                     take 5 (new_events s (snd (pthreadMutexTimedLock opt ins mu (Some a) s))) =
                       [EWarn WarnMutexTimedLock, EClockGettime, EGetTurn,
                        ENative MutexTryLock mu, EWait mu (turnCount s + word_of_int n)])
                \<and> take 3 (new_events s (snd (semTimedWait opt ins sem (Some a) s))) =
                    [EWarn WarnSemTimedWait, EClockGettime, EGetTurn]
                \<and> (\<forall>c d. EWait c d \<in>
                            set (new_events s (snd (semTimedWait opt ins sem (Some a) s)))
                      \<longrightarrow> c = sem \<and> d = turnCount s + word_of_int n)
                \<and> (native_ret s (ncalls s) \<noteq> 0 \<and> native_errno s (ncalls s) = Some EAGAIN \<longrightarrow>
                     take 5 (new_events s (snd (semTimedWait opt ins sem (Some a) s))) =
                       [EWarn WarnSemTimedWait, EClockGettime, EGetTurn,
                        ENative SemTryWait sem, EWait sem (turnCount s + word_of_int n)])
                \<and> take 7 (new_events s (snd (pthreadCondTimedWait opt ins cv mu (Some a) s))) =
                    [EWarn WarnCondTimedWait, EClockGettime, EGetTurn, ENative MutexUnlock mu,
                     EIncTurnCount, ESignal mu False,
                     EWait cv (turnCount s + 1 + word_of_int n)])
          \<and> (\<forall>k. fst (pthreadMutexTimedLock opt ins mu (Some a) s) \<noteq> Stop (Exited k)
                \<and> fst (semTimedWait opt ins sem (Some a) s) \<noteq> Stop (Exited k)
                \<and> fst (pthreadCondTimedWait opt ins cv mu (Some a) s) \<noteq> Stop (Exited k)))
     \<and> (\<not> launch_idle_thread opt \<longrightarrow>
            fst (pthreadMutexTimedLock opt ins mu (Some a) s) = Stop (Exited 1)
          \<and> fst (semTimedWait opt ins sem (Some a) s) = Stop (Exited 1)
          \<and> fst (pthreadCondTimedWait opt ins cv mu (Some a) s) = Stop (Exited 1)
          \<and> EWarn WarnNoIdleThread \<in>
              set (new_events s (snd (pthreadCondTimedWait opt ins cv mu (Some a) s))))"
proof -
  let ?M = "new_events s (snd (pthreadMutexTimedLock opt ins mu (Some a) s))"
  let ?S = "new_events s (snd (semTimedWait opt ins sem (Some a) s))"
  let ?C = "new_events s (snd (pthreadCondTimedWait opt ins cv mu (Some a) s))"
  have A: "(\<exists>n. fst (relTimeToTurn opt (Some (time_diff (clock_now s) a)) s) = Return n
                \<and> take 3 ?M = [EWarn WarnMutexTimedLock, EClockGettime, EGetTurn]
                \<and> (\<forall>c d. EWait c d \<in> set ?M \<longrightarrow> c = mu \<and> d = turnCount s + word_of_int n)
                \<and> (native_ret s (ncalls s) = EBUSY \<longrightarrow>
                     take 5 ?M =
                       [EWarn WarnMutexTimedLock, EClockGettime, EGetTurn,
                        ENative MutexTryLock mu, EWait mu (turnCount s + word_of_int n)])
                \<and> take 3 ?S = [EWarn WarnSemTimedWait, EClockGettime, EGetTurn]
                \<and> (\<forall>c d. EWait c d \<in> set ?S \<longrightarrow> c = sem \<and> d = turnCount s + word_of_int n)
                \<and> (native_ret s (ncalls s) \<noteq> 0 \<and> native_errno s (ncalls s) = Some EAGAIN \<longrightarrow>
                     take 5 ?S =
                       [EWarn WarnSemTimedWait, EClockGettime, EGetTurn,
                        ENative SemTryWait sem, EWait sem (turnCount s + word_of_int n)])
                \<and> take 7 ?C =
                    [EWarn WarnCondTimedWait, EClockGettime, EGetTurn, ENative MutexUnlock mu,
                     EIncTurnCount, ESignal mu False,
                     EWait cv (turnCount s + 1 + word_of_int n)])
          \<and> (\<forall>k. fst (pthreadMutexTimedLock opt ins mu (Some a) s) \<noteq> Stop (Exited k)
                \<and> fst (semTimedWait opt ins sem (Some a) s) \<noteq> Stop (Exited k)
                \<and> fst (pthreadCondTimedWait opt ins cv mu (Some a) s) \<noteq> Stop (Exited k))"
    if idle: "launch_idle_thread opt" and npt: "0 < nanosec_per_turn opt"
  proof -
    from mutex_fallback [OF det unset idle npt, of ins mu a]
    have m: "\<And>k. fst (pthreadMutexTimedLock opt ins mu (Some a) s) \<noteq> Stop (Exited k)"
      by blast
    from sem_fallback [OF det unset idle npt, of ins sem a]
    have p: "\<And>k. fst (semTimedWait opt ins sem (Some a) s) \<noteq> Stop (Exited k)"
      by blast
    from cond_fallback [OF det unset idle npt, of a ins cv mu 0]
    obtain n es where c: "fst (relTimeToTurn opt (Some (time_diff (clock_now s) a)) s) = Return n"
      "events (snd (pthreadCondTimedWait opt ins cv mu (Some a) s)) =
              events s @ [EWarn WarnCondTimedWait, EClockGettime, EGetTurn,
                          ENative MutexUnlock mu, EIncTurnCount, ESignal mu False,
                          EWait cv (turnCount s + 1 + word_of_int n)] @ es"
      by blast
    have c': "\<And>k. fst (pthreadCondTimedWait opt ins cv mu (Some a) s) \<noteq> Stop (Exited k)"
      using cond_fallback [OF det unset idle npt, of a ins cv mu] by blast
    let ?t = "turnCount s + word_of_int n"
    from mutex_deadline [OF det unset idle npt c(1), of ins mu] obtain em where
      em: "events (snd (pthreadMutexTimedLock opt ins mu (Some a) s)) =
            events s @ [EWarn WarnMutexTimedLock, EClockGettime, EGetTurn] @ em"
      "\<forall>c d. EWait c d \<in> set em \<longrightarrow> c = mu \<and> d = ?t"
      "native_ret s (ncalls s) = EBUSY \<longrightarrow> take 2 em = [ENative MutexTryLock mu, EWait mu ?t]"
      by blast
    from sem_deadline [OF det unset idle npt c(1), of ins sem] obtain ep where
      ep: "events (snd (semTimedWait opt ins sem (Some a) s)) =
            events s @ [EWarn WarnSemTimedWait, EClockGettime, EGetTurn] @ ep"
      "\<forall>c d. EWait c d \<in> set ep \<longrightarrow> c = sem \<and> d = ?t"
      "native_ret s (ncalls s) \<noteq> 0 \<and> native_errno s (ncalls s) = Some EAGAIN \<longrightarrow>
         take 2 ep = [ENative SemTryWait sem, EWait sem ?t]"
      by blast
    have M: "?M = [EWarn WarnMutexTimedLock, EClockGettime, EGetTurn] @ em"
      using em(1) by (simp add: new_events_def)
    have S: "?S = [EWarn WarnSemTimedWait, EClockGettime, EGetTurn] @ ep"
      using ep(1) by (simp add: new_events_def)
    have 1: "take 3 ?M = [EWarn WarnMutexTimedLock, EClockGettime, EGetTurn]"
      by (simp add: M)
    have 2: "\<forall>c d. EWait c d \<in> set ?M \<longrightarrow> c = mu \<and> d = ?t"
      using em(2) by (auto simp: M)
    have 3: "native_ret s (ncalls s) = EBUSY \<longrightarrow>
        take 5 ?M = [EWarn WarnMutexTimedLock, EClockGettime, EGetTurn,
                     ENative MutexTryLock mu, EWait mu ?t]"
      using em(3) by (simp add: M)
    have 4: "take 3 ?S = [EWarn WarnSemTimedWait, EClockGettime, EGetTurn]"
      by (simp add: S)
    have 5: "\<forall>c d. EWait c d \<in> set ?S \<longrightarrow> c = sem \<and> d = ?t"
      using ep(2) by (auto simp: S)
    have 6: "native_ret s (ncalls s) \<noteq> 0 \<and> native_errno s (ncalls s) = Some EAGAIN \<longrightarrow>
        take 5 ?S = [EWarn WarnSemTimedWait, EClockGettime, EGetTurn,
                     ENative SemTryWait sem, EWait sem ?t]"
      using ep(3) by (simp add: S)
    have 7: "take 7 ?C =
                    [EWarn WarnCondTimedWait, EClockGettime, EGetTurn, ENative MutexUnlock mu,
                     EIncTurnCount, ESignal mu False,
                     EWait cv (turnCount s + 1 + word_of_int n)]"
      using c(2) by (simp add: new_events_def)
    from c(1) 1 2 3 4 5 6 7 m p c' show ?thesis by blast
  qed
  from A exit_without_idle_thread [OF det, of ins mu a sem cv] show ?thesis by blast
qed


theorem base_time_fallback_witness:
  "take 5 (new_events sT (snd (pthreadMutexTimedLock opts0 7 100 (Some abs1) sT))) =
     [EWarn WarnMutexTimedLock, EClockGettime, EGetTurn, ENative MutexTryLock 100,
      EWait 100 2000]
   \<and> take 5 (new_events sSemT (snd (semTimedWait opts0 7 200 (Some abs1) sSemT))) =
     [EWarn WarnSemTimedWait, EClockGettime, EGetTurn, ENative SemTryWait 200, EWait 200 2000]
   \<and> take 7 (new_events s0 (snd (pthreadCondTimedWait opts0 7 500 100 (Some abs1) s0))) =
     [EWarn WarnCondTimedWait, EClockGettime, EGetTurn, ENative MutexUnlock 100,
      EIncTurnCount, ESignal 100 False, EWait 500 2001]
   \<and> fst (pthreadCondTimedWait (opts0\<lparr>launch_idle_thread := False\<rparr>) 7 500 100 (Some abs1) s0) =
       Stop (Exited 1)"
  using base_time_fallback [where opt = opts0 and s = sT and ins = 7 and mu = 100 and a = abs1
      and sem = 200 and cv = 500]
    base_time_fallback [where opt = opts0 and s = sSemT and ins = 7 and mu = 100 and a = abs1
      and sem = 200 and cv = 500]
    base_time_fallback [where opt = opts0 and s = s0 and ins = 7 and mu = 100 and a = abs1
      and sem = 200 and cv = 500]
    base_time_fallback [where opt = "opts0\<lparr>launch_idle_thread := False\<rparr>" and s = s0
      and ins = 7 and mu = 100 and a = abs1 and sem = 200 and cv = 500]
  by (simp add: opts0_def sT_def sSemT_def s0_def abs1_def relTimeToTurn_def time2turn_def
      time_diff_def u64_def i32_def MAX_REL_def seq_def Let_def EBUSY_def EAGAIN_def)

text \<open>
  C8 as stated fails for the conversion without the idle thread: it prints a warning and
  calls \<^verbatim>\<open>exit(1)\<close>. The run does not proceed, also when a base time is set.
\<close>

theorem conversion_without_idle_thread_exits:
  "time2turn (opts0\<lparr>launch_idle_thread := False\<rparr>) 2000000 s0 =
     (Stop (Exited 1), s0\<lparr>events := [EWarn WarnNoIdleThread]\<rparr>)
   \<and> fst (pthreadCondTimedWait (opts0\<lparr>launch_idle_thread := False\<rparr>) 7 500 100 (Some abs1)
          (s0\<lparr>my_base_time := \<lparr>tv_sec = 1700000000, tv_nsec = 0\<rparr>\<rparr>)) = Stop (Exited 1)"
  by (simp add: pthreadCondTimedWait_def base_or_clock_def seq_def Let_def
      relTimeToTurn_def time2turn_def turn_defs native_def opts0_def s0_def abs1_def)

end
